theory Spec2Isabelle
  imports Complex_Main "HOL-Library.Word"
begin

unbundle bit_operations_syntax

section \<open>Constants of \<open>ymode.js\<close>\<close>

text \<open>
  Buffers are lists of bytes. The numbers that the bitwise operators of JavaScript
  work on are 32-bit integers; all values met here stay below \<open>2 ^ 24\<close>, so the
  signed and the unsigned reading of the 32 bits agree.
\<close>

type_synonym byte = "8 word"

definition PACKET_SIZE_128 :: nat where "PACKET_SIZE_128 = 128"
definition PACKET_SIZE_1024 :: nat where "PACKET_SIZE_1024 = 1024"
definition SOH :: byte where "SOH = 0x01"
definition STX :: byte where "STX = 0x02"
definition EOT :: byte where "EOT = 0x04"
definition ACK :: byte where "ACK = 0x06"
definition NAK :: byte where "NAK = 0x15"
definition CA :: byte where "CA = 0x18"
definition CRC16 :: byte where "CRC16 = 0x43"

section \<open>The checksum: \<open>crc16xmodem\<close>\<close>

text \<open>
  \<open>packet[begin] & 0xff\<close>: a read past the end of a buffer gives \<open>undefined\<close>,
  which \<open>&\<close> turns into 0.
\<close>

definition byte_at :: "byte list \<Rightarrow> nat \<Rightarrow> 32 word" where
  "byte_at packet i = (if i < length packet then ucast (packet ! i) else 0) AND 0xff"

text \<open>The body of the loop, one statement per \<open>let\<close>.\<close>

definition crc_body :: "32 word \<Rightarrow> 32 word \<Rightarrow> 32 word" where
  "crc_body crc b =
     (let code = drop_bit 8 crc AND 0xff;
          code = code XOR b;
          code = code XOR drop_bit 4 code;
          crc = push_bit 8 crc AND 0xffff;
          crc = crc XOR code;
          code = push_bit 5 code AND 0xffff;
          crc = crc XOR code;
          code = push_bit 7 code AND 0xffff;
          crc = crc XOR code
      in crc)"

text \<open>\<open>for (; begin < stop_at; begin++)\<close>\<close>

function crc_loop :: "byte list \<Rightarrow> nat \<Rightarrow> nat \<Rightarrow> 32 word \<Rightarrow> 32 word" where
  "crc_loop packet begin stop_at crc =
     (if begin < stop_at
      then crc_loop packet (Suc begin) stop_at (crc_body crc (byte_at packet begin))
      else crc)"
  by pat_completeness auto
termination
  by (relation "measure (\<lambda>(packet, begin, stop_at, crc). stop_at - begin)") auto

declare crc_loop.simps [simp del]

text \<open>
  The optional argument \<open>previous\<close> is \<open>None\<close> when the caller leaves it out;
  \<open>~~previous\<close> is the conversion to a 32-bit integer.
\<close>

definition crc16xmodem :: "byte list \<Rightarrow> nat \<Rightarrow> nat \<Rightarrow> int option \<Rightarrow> 32 word" where
  "crc16xmodem packet begin len previous =
     (let stop_at = begin + len;
          crc = (case previous of Some p \<Rightarrow> word_of_int p | None \<Rightarrow> 0x0)
      in crc_loop packet begin stop_at crc)"

subsection \<open>CRC16/XMODEM as published: polynomial 0x1021, no reflection, initial value 0\<close>

text \<open>
  The reference the checksum is compared with: a 16-bit register, each byte is
  XORed into the high byte, then the register is shifted left eight times, and
  whenever a one leaves at the top the polynomial 0x1021 is XORed in.
\<close>

definition xmodem_shift :: "16 word \<Rightarrow> 16 word" where
  "xmodem_shift r = (if bit r 15 then push_bit 1 r XOR 0x1021 else push_bit 1 r)"

definition xmodem_byte :: "16 word \<Rightarrow> byte \<Rightarrow> 16 word" where
  "xmodem_byte r b = (xmodem_shift ^^ 8) (r XOR push_bit 8 (ucast b))"

definition xmodem_reference :: "byte list \<Rightarrow> 16 word" where
  "xmodem_reference bs = foldl xmodem_byte 0 bs"

text \<open>
  The three shift-and-XOR steps of the loop body on a 16-bit register, after the
  byte has been XORed into the high byte (an auxiliary form for the proofs).
\<close>

definition mix16 :: "16 word \<Rightarrow> 16 word" where
  "mix16 r = (let c = drop_bit 8 r; c = c XOR drop_bit 4 c
              in push_bit 8 r XOR c XOR push_bit 5 c XOR push_bit 12 c)"

section \<open>The operations of \<open>Buffer\<close> that the code calls\<close>

text \<open>
  A failing library call throws; the calls used here throw a \<open>RangeError\<close>. A
  function that can throw returns \<open>Inl\<close> of the error, and \<open>andThen\<close> runs the
  statements that follow a call only when it has returned.
\<close>

datatype error = RangeError

definition andThen :: "error + 'a \<Rightarrow> ('a \<Rightarrow> error + 'b) \<Rightarrow> error + 'b" where
  "andThen m f = (case m of Inl e \<Rightarrow> Inl e | Inr x \<Rightarrow> f x)"

text \<open>\<open>Buffer.alloc(size, fill)\<close>\<close>

definition alloc :: "nat \<Rightarrow> byte \<Rightarrow> byte list" where
  "alloc n fill = replicate n fill"

text \<open>
  A JavaScript string is a sequence of UTF-16 code units. Here a \<open>string\<close> holds
  the code units from 0 to 255, one per \<open>char\<close>, so \<open>length\<close> is the \<open>.length\<close>
  of the source. \<open>utf8ToBytes string units\<close> is the UTF-8 encoding written by
  \<open>buf.write\<close>: one byte for a code unit below 0x80, two bytes above, and the
  encoding stops before the first character that no longer fits into \<open>units\<close> bytes.
\<close>

fun utf8ToBytes :: "string \<Rightarrow> nat \<Rightarrow> byte list" where
  "utf8ToBytes [] units = []"
| "utf8ToBytes (c # cs) units =
     (let codePoint = (of_char c :: nat) in
      if codePoint < 0x80 then
        (if units < 1 then [] else of_nat codePoint # utf8ToBytes cs (units - 1))
      else
        (if units < 2 then []
         else of_nat (drop_bit 6 codePoint OR 0xC0) # of_nat ((codePoint AND 0x3F) OR 0x80)
                # utf8ToBytes cs (units - 2)))"

text \<open>
  \<open>buf.write(string, offset)\<close>: throws when \<open>offset\<close> lies past the end of the
  buffer, otherwise writes as much of the encoding as fits from \<open>offset\<close> on.
\<close>

definition buf_write :: "byte list \<Rightarrow> string \<Rightarrow> nat \<Rightarrow> error + byte list" where
  "buf_write buf string offset =
     (if length buf < offset then Inl RangeError
      else let bytes = utf8ToBytes string (length buf - offset)
           in Inr (take offset buf @ bytes @ drop (offset + length bytes) buf))"

text \<open>
  \<open>buf.writeUInt16BE(v, offset)\<close>: throws when \<open>v\<close> does not fit into 16 bits
  or the two bytes do not fit into the buffer; the high byte is written first.
\<close>

definition writeUInt16BE :: "byte list \<Rightarrow> 32 word \<Rightarrow> nat \<Rightarrow> error + byte list" where
  "writeUInt16BE buf v offset =
     (if 0xffff < v \<or> length buf < offset + 2 then Inl RangeError
      else Inr (buf[offset := ucast (drop_bit 8 v), offset + 1 := ucast (v AND 0xff)]))"

text \<open>
  \<open>source.copy(target, targetStart, sourceStart, sourceEnd)\<close>: copies the bytes
  \<open>sourceStart \<dots> sourceEnd - 1\<close> of \<open>source\<close>, as far as \<open>source\<close> has them and
  \<open>target\<close> has room, to \<open>targetStart\<close> on; throws when there is something to copy
  and \<open>sourceStart\<close> is not an index of \<open>source\<close>.
\<close>

definition copy :: "byte list \<Rightarrow> byte list \<Rightarrow> nat \<Rightarrow> nat \<Rightarrow> nat \<Rightarrow> error + byte list" where
  "copy source target targetStart sourceStart sourceEnd =
     (let targetStart = (if length target \<le> targetStart then length target else targetStart);
          sourceEnd = (if 0 < sourceEnd \<and> sourceEnd < sourceStart then sourceStart else sourceEnd)
      in if sourceEnd = sourceStart then Inr target
         else if length target = 0 \<or> length source = 0 then Inr target
         else if length source \<le> sourceStart then Inl RangeError
         else
           let sourceEnd = (if length source < sourceEnd then length source else sourceEnd);
               sourceEnd = (if length target - targetStart < sourceEnd - sourceStart
                            then length target - targetStart + sourceStart else sourceEnd);
               len = sourceEnd - sourceStart
           in Inr (take targetStart target @ take len (drop sourceStart source)
                     @ drop (targetStart + len) target))"

text \<open>
  \<open>filesize.toString()\<close> for a size that is a natural number: its decimal digits
  (JavaScript prints every integer below \<open>10 ^ 21\<close> this way; the length of a buffer
  is far below that).
\<close>

fun toString :: "nat \<Rightarrow> string" where
  "toString n =
     (if n < 10 then [char_of (48 + n)] else toString (n div 10) @ [char_of (48 + n mod 10)])"

declare toString.simps [simp del]

section \<open>Packets\<close>

text \<open>The predefined packet \<open>eot_pack\<close>.\<close>

definition eot_pack :: "byte list" where
  "eot_pack = (alloc (PACKET_SIZE_128 + 5) 0x00)[0 := SOH, 2 := 0xff]"

text \<open>
  \<open>makeFileHeader(filename, filesize)\<close>. The two \<open>if\<close>s test the truthiness of
  their argument: the empty string and the number 0 are falsy.
\<close>

definition makeFileHeader :: "string \<Rightarrow> nat \<Rightarrow> error + byte list" where
  "makeFileHeader filename filesize =
     (let File_HD_SIZE = 128;
          payload = alloc (File_HD_SIZE + 3 + 2) 0x00;
          payload = payload[0 := SOH];
          payload = payload[1 := 0];
          payload = payload[2 := 0xff];
          offset = 3
      in andThen
           (if filename \<noteq> []
            then andThen (buf_write payload filename offset)
                   (\<lambda>payload. Inr (payload, offset + length filename + 1))
            else Inr (payload, offset))
           (\<lambda>(payload, offset).
              andThen
                (if filesize \<noteq> 0 then buf_write payload (toString filesize @ '' '') offset
                 else Inr payload)
                (\<lambda>payload.
                   let crc = crc16xmodem payload 3 File_HD_SIZE None
                   in writeUInt16BE payload crc (length payload - 2))))"

text \<open>
  The body of the loop of \<open>splitFile\<close> for the index \<open>i\<close>: the chunk it pushes.
  \<open>totalBytes - i * PACKET_SIZE_1024\<close> is a subtraction of numbers, hence on \<open>int\<close>.
\<close>

definition splitFile_body :: "byte list \<Rightarrow> nat \<Rightarrow> nat \<Rightarrow> nat \<Rightarrow> error + byte list" where
  "splitFile_body buffer totalBytes maxPack i =
     (let is_last = (i + 1 = maxPack);
          packSize = PACKET_SIZE_1024;
          packSize = (if is_last \<and> int totalBytes - int (i * PACKET_SIZE_1024) \<le> 128
                      then PACKET_SIZE_128 else packSize);
          chunk = alloc (packSize + 3 + 2) (if is_last then 0x1A else 0x00);
          chunk = chunk[0 := (if packSize = PACKET_SIZE_1024 then STX else SOH)];
          chunk = chunk[1 := ucast ((word_of_nat (i + 1) :: 32 word) AND 0xff)];
          chunk = chunk[2 := 0xff - chunk ! 1]
      in andThen
           (copy buffer chunk 3 (PACKET_SIZE_1024 * i) (PACKET_SIZE_1024 * i + packSize))
           (\<lambda>chunk.
              let crc = crc16xmodem chunk 3 packSize None
              in writeUInt16BE chunk crc (length chunk - 2)))"

text \<open>\<open>for (let i = 0; i < maxPack; i++) { \<dots> array.push(chunk) }\<close>\<close>

function splitFile_loop ::
  "byte list \<Rightarrow> nat \<Rightarrow> nat \<Rightarrow> nat \<Rightarrow> byte list list \<Rightarrow> error + byte list list" where
  "splitFile_loop buffer totalBytes maxPack i array =
     (if i < maxPack
      then (case splitFile_body buffer totalBytes maxPack i of
              Inl e \<Rightarrow> Inl e
            | Inr chunk \<Rightarrow> splitFile_loop buffer totalBytes maxPack (Suc i) (array @ [chunk]))
      else Inr array)"
  by pat_completeness auto
termination
  by (relation "measure (\<lambda>(buffer, totalBytes, maxPack, i, array). maxPack - i)") auto

declare splitFile_loop.simps [simp del]

text \<open>
  \<open>parseInt\<close> of the quotient of two numbers cuts the fraction off (the quotient
  is at least \<open>1023 / 1024\<close>, which JavaScript prints in decimal notation).
\<close>

definition splitFile :: "byte list \<Rightarrow> error + byte list list" where
  "splitFile buffer =
     (let totalBytes = length buffer;
          maxPack = (length buffer + PACKET_SIZE_1024 - 1) div PACKET_SIZE_1024
      in splitFile_loop buffer totalBytes maxPack 0 [])"

section \<open>The transfer\<close>

text \<open>
  The variables of the closure of \<open>transfer\<close>, together with what its effects
  leave behind: the buffers handed to \<open>writer.write\<close>, the arguments of the
  progress callback (\<open>writtenBytes\<close> and \<open>totalBytes\<close> at the call), the values
  passed to \<open>resolve\<close>, whether \<open>reject\<close> was called, whether the loop of
  \<open>readData\<close> is still running, and how many promises of \<open>reader.cancel()\<close> are
  waiting to run their \<open>then\<close> callback. \<open>reader_locked\<close> is what \<open>reader.locked\<close>
  evaluates to, \<open>progressCallback\<close> whether the caller passed one.
\<close>

record outcome =
  filePath :: string
  outcome_totalBytes :: nat
  outcome_writtenBytes :: nat

record driver =
  filename :: string
  progressCallback :: bool
  reader_locked :: bool
  file_trunks :: "byte list list"
  totalBytes :: nat
  writtenBytes :: nat
  seq :: nat
  session :: bool
  sending :: bool
  finished :: bool
  PreChar :: byte
  reading :: bool
  cancelling :: nat
  written :: "byte list list"
  progress :: "(nat \<times> nat) list"
  resolved :: "outcome list"
  rejected :: bool

text \<open>
  \<open>sendBuffer(buffer)\<close> is only called without \<open>once_len\<close>: it passes the buffer
  to \<open>writer.write\<close>. The call of \<open>writer.write\<close> happens before the first
  \<open>await\<close> takes effect, that is, while the byte is being handled.
\<close>

definition sendBuffer :: "byte list \<Rightarrow> driver \<Rightarrow> driver" where
  "sendBuffer buffer d = d\<lparr>written := written d @ [buffer]\<rparr>"

definition sendPacket :: "driver \<Rightarrow> driver" where
  "sendPacket d =
     (if seq d < length (file_trunks d) then sendBuffer (file_trunks d ! seq d) d
      else if sending d then sendBuffer [EOT] d
      else d)"

definition finish :: "driver \<Rightarrow> driver" where
  "finish d =
     (let d = (if \<not> finished d
               then d\<lparr>resolved := resolved d @
                      [\<lparr>filePath = filename d, outcome_totalBytes = totalBytes d,
                        outcome_writtenBytes = writtenBytes d\<rparr>]\<rparr>
               else d)
      in d\<lparr>finished := True\<rparr>)"

text \<open>
  \<open>close\<close>: with a truthy \<open>reader.locked\<close> the call of \<open>finish\<close> waits for the
  promise of \<open>reader.cancel()\<close>.
\<close>

definition close :: "driver \<Rightarrow> driver" where
  "close d =
     (let d = d\<lparr>session := False\<rparr>;
          d = d\<lparr>sending := False\<rparr>
      in if reader_locked d then d\<lparr>cancelling := Suc (cancelling d)\<rparr> else finish d)"

text \<open>The body of the \<open>for\<close> loop of \<open>readData\<close> for one received byte \<open>ch\<close>.\<close>

definition on_ACK :: "driver \<Rightarrow> driver" where
  "on_ACK d =
     (let d = (if \<not> session d then close d else d)
      in if sending d then
           (if seq d = 0 then d\<lparr>seq := seq d + 1\<rparr>
            else if seq d < length (file_trunks d) then
              (let d = (if writtenBytes d < totalBytes d then
                          (let d = d\<lparr>writtenBytes := (seq d + 1) * PACKET_SIZE_1024\<rparr>
                           in if totalBytes d < writtenBytes d
                              then d\<lparr>writtenBytes := totalBytes d\<rparr> else d)
                        else d);
                   d = d\<lparr>seq := seq d + 1\<rparr>;
                   d = (if progressCallback d
                        then d\<lparr>progress := progress d @ [(writtenBytes d, totalBytes d)]\<rparr>
                        else d)
               in sendPacket d)
            else
              (let d = d\<lparr>sending := False\<rparr>;
                   d = d\<lparr>session := False\<rparr>
               in sendBuffer eot_pack d))
         else d)"

definition on_byte :: "byte \<Rightarrow> driver \<Rightarrow> driver" where
  "on_byte ch d =
     (if \<not> finished d then
        (let d =
           (if ch = CRC16 then
              (if length (file_trunks d) \<le> seq d then sendBuffer eot_pack d
               else if PreChar d \<noteq> CRC16 then (sendPacket d)\<lparr>sending := True\<rparr>
               else d)
            else if ch = ACK then on_ACK d
            else if ch = NAK then sendPacket d
            else if ch = CA then close d
            else d)
         in d\<lparr>PreChar := ch\<rparr>)
      else d)"

text \<open>
  What \<open>readData\<close> and the promises react to: the next byte of a chunk that
  \<open>reader.read()\<close> delivered, \<open>reader.read()\<close> reporting \<open>done\<close> (the loop is left
  and the lock released), \<open>reader.read()\<close> failing (\<open>reject\<close> is called), and the
  promise of a \<open>reader.cancel()\<close> being fulfilled (its \<open>then\<close> callback calls
  \<open>finish\<close>). A run is any sequence of these; the runs of the program, where a
  callback only runs between two chunks, are among them.
\<close>

datatype event = Byte byte | ReadDone | ReadError | CancelSettled

fun step :: "driver \<Rightarrow> event \<Rightarrow> driver" where
  "step d (Byte ch) = (if reading d then on_byte ch d else d)"
| "step d ReadDone = d\<lparr>reading := False\<rparr>"
| "step d ReadError = (if reading d then d\<lparr>rejected := True, reading := False\<rparr> else d)"
| "step d CancelSettled =
     (if 0 < cancelling d then finish (d\<lparr>cancelling := cancelling d - 1\<rparr>) else d)"

definition readData :: "driver \<Rightarrow> event list \<Rightarrow> driver" where
  "readData d events = foldl step d events"

text \<open>
  \<open>transfer\<close> up to the call of \<open>readData\<close>: the state in which the first event
  is met. \<open>buffer\<close> stands for the bytes of \<open>Buffer.from(buffer.buffer)\<close>, \<open>name\<close>
  for the argument \<open>filename\<close>; the calls of \<open>logger\<close> leave nothing behind and are
  left out. When \<open>makeFileHeader\<close> or \<open>splitFile\<close> throws, no session starts.
\<close>

definition transfer :: "bool \<Rightarrow> string \<Rightarrow> byte list \<Rightarrow> bool \<Rightarrow> error + driver" where
  "transfer locked name buffer callback =
     (let totalBytes = length buffer
      in andThen (makeFileHeader name totalBytes) (\<lambda>headerPayload.
         andThen (splitFile buffer) (\<lambda>payloads.
           Inr \<lparr>filename = name, progressCallback = callback, reader_locked = locked,
                file_trunks = [headerPayload] @ payloads,
                totalBytes = totalBytes, writtenBytes = 0, seq = 0,
                session = True, sending = False, finished = False,
                PreChar = 0, reading = True, cancelling = 0,
                written = [], progress = [], resolved = [], rejected = False\<rparr>)))"

section \<open>The layout of a packet, in the words of the specification\<close>

text \<open>
  \<open>[marker:1][seq:1][seqComplement:1][payload:128|1024][crcHigh:1][crcLow:1]\<close>:
  the payload region of a packet is what lies between its three header bytes and
  its two trailer bytes.
\<close>

definition marker :: "byte list \<Rightarrow> byte" where
  "marker packet = packet ! 0"

definition sequence :: "byte list \<Rightarrow> byte" where
  "sequence packet = packet ! 1"

definition complement :: "byte list \<Rightarrow> byte" where
  "complement packet = packet ! 2"

definition payload :: "byte list \<Rightarrow> byte list" where
  "payload packet = take (length packet - 5) (drop 3 packet)"

definition trailer :: "byte list \<Rightarrow> byte list" where
  "trailer packet = drop (length packet - 2) packet"

text \<open>The two bytes of the CRC16 of a payload, high byte first.\<close>

definition crc_trailer :: "byte list \<Rightarrow> byte list" where
  "crc_trailer bytes =
     [ucast (drop_bit 8 (xmodem_reference bytes)), ucast (xmodem_reference bytes)]"

text \<open>A chunk of file bytes, filled up to \<open>n\<close> bytes with 0x1A.\<close>

definition padded :: "nat \<Rightarrow> byte list \<Rightarrow> byte list" where
  "padded n bytes = bytes @ replicate (n - length bytes) 0x1A"

text \<open>
  The frame size that \<open>splitFile\<close> chooses for the chunk \<open>i\<close> of a buffer of \<open>L\<close>
  bytes, and the packet it builds for it, in closed form.
\<close>

definition packSize_of :: "nat \<Rightarrow> nat \<Rightarrow> nat" where
  "packSize_of L i =
     (if i + 1 = (L + 1023) div 1024 \<and> L \<le> 1024 * i + 128 then 128 else 1024)"

definition data_packet :: "byte list \<Rightarrow> nat \<Rightarrow> byte list" where
  "data_packet buffer i =
     (let n = packSize_of (length buffer) i;
          bytes = padded n (take n (drop (1024 * i) buffer))
      in [if n = 1024 then STX else SOH, of_nat (i + 1), 0xff - of_nat (i + 1)]
           @ bytes @ crc_trailer bytes)"

text \<open>
  The text of a header payload: \<open>filename + NUL + decimalSize + SPACE\<close>. The
  sender has no code that reads a header back; the two parsing functions follow
  this layout: the file name is what stands before the first NUL, the size is the
  value of the decimal digits between that NUL and the next space.
\<close>

definition header_text :: "string \<Rightarrow> nat \<Rightarrow> byte list" where
  "header_text name n = map of_char name @ [0] @ map of_char (toString n) @ [0x20]"

definition decimal_value :: "byte list \<Rightarrow> nat" where
  "decimal_value ds = foldl (\<lambda>n d. 10 * n + (unat d - 48)) 0 ds"

definition parse_filename :: "byte list \<Rightarrow> string" where
  "parse_filename bytes = map (\<lambda>b. char_of (unat b)) (takeWhile (\<lambda>b. b \<noteq> 0) bytes)"

definition parse_filesize :: "byte list \<Rightarrow> nat" where
  "parse_filesize bytes =
     decimal_value (takeWhile (\<lambda>b. b \<noteq> 0x20) (drop 1 (dropWhile (\<lambda>b. b \<noteq> 0) bytes)))"

text \<open>
  The state that \<open>transfer\<close> starts \<open>readData\<close> in, given the header packet,
  and the invariant behind "at most once": nothing has been resolved, or
  \<open>finished\<close> is set and one outcome has been resolved.
\<close>

definition started :: "bool \<Rightarrow> string \<Rightarrow> byte list \<Rightarrow> bool \<Rightarrow> byte list \<Rightarrow> driver" where
  "started locked name buffer callback hdr =
     \<lparr>filename = name, progressCallback = callback, reader_locked = locked,
      file_trunks = hdr # map (data_packet buffer) [0..<(length buffer + 1023) div 1024],
      totalBytes = length buffer, writtenBytes = 0, seq = 0,
      session = True, sending = False, finished = False,
      PreChar = 0, reading = True, cancelling = 0,
      written = [], progress = [], resolved = [], rejected = False\<rparr>"

definition once :: "driver \<Rightarrow> bool" where
  "once d \<longleftrightarrow> resolved d = [] \<or> (finished d \<and> length (resolved d) = 1)"

section \<open>Properties of the checksum\<close>

subsection \<open>One shift of the reference register is linear over XOR\<close>

lemma xmodem_shift_alt:
  "xmodem_shift r = push_bit 1 r XOR (if bit r 15 then 0x1021 else 0)"
  by (simp add: xmodem_shift_def)

lemma xmodem_shift_xor: "xmodem_shift (a XOR b) = xmodem_shift a XOR xmodem_shift b"
  by (simp add: xmodem_shift_alt bit_xor_iff xor.assoc xor.left_commute)

lemma funpow8: "(f ^^ 8) x = f (f (f (f (f (f (f (f x)))))))"
  by (simp add: eval_nat_numeral)

lemma shift8_xor:
  "(xmodem_shift ^^ 8) (a XOR b) = (xmodem_shift ^^ 8) a XOR (xmodem_shift ^^ 8) b"
  by (simp add: funpow8 xmodem_shift_xor)

lemma mix16_xor: "mix16 (a XOR b) = mix16 a XOR mix16 b"
  by (simp add: mix16_def Let_def xor.assoc xor.left_commute)

lemma shift8_zero: "(xmodem_shift ^^ 8) 0 = 0"
  by (simp add: funpow8 xmodem_shift_def)

lemma mix16_zero: "mix16 0 = 0"
  by (simp add: mix16_def)

text \<open>Both maps agree on the sixteen one-bit registers, hence everywhere.\<close>

lemma shift8_mix16_basis:
  "n < 16 \<Longrightarrow> (xmodem_shift ^^ 8) (push_bit n 1) = mix16 (push_bit n 1)"
proof -
  assume "n < 16"
  then consider "n = 0" | "n = 1" | "n = 2" | "n = 3" | "n = 4" | "n = 5" | "n = 6" | "n = 7"
    | "n = 8" | "n = 9" | "n = 10" | "n = 11" | "n = 12" | "n = 13" | "n = 14" | "n = 15"
    by atomize_elim arith
  then show ?thesis
    by cases (simp_all add: funpow8 xmodem_shift_def mix16_def Let_def)
qed

lemma take_bit_Suc_xor:
  "take_bit (Suc n) (r :: 16 word) = take_bit n r XOR (if bit r n then push_bit n 1 else 0)"
  by (rule bit_eqI) (auto simp add: bit_simps less_Suc_eq)

lemma shift8_take_bit:
  "n \<le> 16 \<Longrightarrow> (xmodem_shift ^^ 8) (take_bit n r) = mix16 (take_bit n r)"
proof (induction n)
  case 0
  show ?case by (simp add: shift8_zero mix16_zero)
next
  case (Suc n)
  then have IH: "(xmodem_shift ^^ 8) (take_bit n r) = mix16 (take_bit n r)" and n: "n < 16"
    by simp_all
  show ?case
  proof (cases "bit r n")
    case True
    then show ?thesis
      by (simp only: take_bit_Suc_xor if_True shift8_xor mix16_xor IH shift8_mix16_basis [OF n])
  next
    case False
    then show ?thesis
      by (simp only: take_bit_Suc_xor if_False IH xor.right_neutral)
  qed
qed

lemma shift8_mix16: "(xmodem_shift ^^ 8) r = mix16 r"
  using shift8_take_bit [of 16 r] by (simp add: take_bit_word_eq_self)

subsection \<open>The loop body on 32-bit numbers is the 16-bit mixing step\<close>

lemma mask8: "(x :: 32 word) AND 0xff = take_bit 8 x"
  by (simp add: take_bit_eq_mask mask_eq_exp_minus_1)

lemma mask16: "(x :: 32 word) AND 0xffff = take_bit 16 x"
  by (simp add: take_bit_eq_mask mask_eq_exp_minus_1)

lemma ucast_push_bit_16_32:
  "take_bit 16 (push_bit n (ucast (x :: 16 word) :: 32 word)) = ucast (push_bit n x)"
  by (rule bit_eqI) (auto simp add: bit_simps)

lemma push_bit_7_5: "push_bit 7 (push_bit 5 (d :: 16 word)) = push_bit 12 d"
  by (simp add: push_bit_push_bit)

lemma high_byte_16_32:
  "take_bit 8 (drop_bit 8 (ucast (r :: 16 word) :: 32 word)) = ucast (drop_bit 8 r)"
  by (rule bit_eqI) (auto simp add: bit_simps dest: bit_imp_le_length)

lemma ucast_xor_16_32: "(ucast (x XOR y :: 16 word) :: 32 word) = ucast x XOR ucast y"
  by (rule bit_eqI) (auto simp add: bit_simps)

lemma ucast_drop_bit_16_32:
  "(ucast (drop_bit n (x :: 16 word)) :: 32 word) = drop_bit n (ucast x)"
  by (rule bit_eqI) (auto simp add: bit_simps dest: bit_imp_le_length)

lemma ucast_byte_16_32: "(ucast (ucast (b :: byte) :: 16 word) :: 32 word) = ucast b"
  by (rule bit_eqI) (auto simp add: bit_simps dest: bit_imp_le_length)

lemma drop_bit_8_xor_byte:
  "drop_bit 8 (r XOR push_bit 8 (ucast (b :: byte))) = drop_bit 8 (r :: 16 word) XOR ucast b"
  by (rule bit_eqI) (auto simp add: bit_simps dest: bit_imp_le_length)

lemma push_bit_8_xor_byte:
  "push_bit 8 (r XOR push_bit 8 (ucast (b :: byte))) = push_bit 8 (r :: 16 word)"
  by (rule bit_eqI) (auto simp add: bit_simps)

lemma take_bit_8_ucast_byte: "take_bit 8 (ucast (b :: byte) :: 32 word) = ucast b"
  by (rule bit_eqI) (auto simp add: bit_simps dest: bit_imp_le_length)

lemma crc_body_mix16:
  "crc_body (ucast (r :: 16 word)) (ucast (b :: byte)) =
     ucast (mix16 (r XOR push_bit 8 (ucast b)))"
proof -
  define d :: "16 word"
    where "d = (drop_bit 8 r XOR ucast b) XOR drop_bit 4 (drop_bit 8 r XOR ucast b)"
  have code: "(take_bit 8 (drop_bit 8 (ucast r :: 32 word)) XOR ucast b)
      XOR drop_bit 4 (take_bit 8 (drop_bit 8 (ucast r :: 32 word)) XOR ucast b) = ucast d"
    by (simp only: d_def high_byte_16_32 ucast_xor_16_32 ucast_drop_bit_16_32 ucast_byte_16_32)
  have "crc_body (ucast r) (ucast b) =
      take_bit 16 (push_bit 8 (ucast r)) XOR ucast d XOR take_bit 16 (push_bit 5 (ucast d))
        XOR take_bit 16 (push_bit 7 (take_bit 16 (push_bit 5 (ucast d))))"
    unfolding crc_body_def Let_def mask8 mask16 code by (simp only: xor.assoc)
  also have "\<dots> = ucast (push_bit 8 r XOR d XOR push_bit 5 d XOR push_bit 12 d)"
    by (simp only: ucast_push_bit_16_32 push_bit_7_5 ucast_xor_16_32)
  also have "push_bit 8 r XOR d XOR push_bit 5 d XOR push_bit 12 d =
      mix16 (r XOR push_bit 8 (ucast b))"
    by (simp only: mix16_def Let_def drop_bit_8_xor_byte push_bit_8_xor_byte d_def)
  finally show ?thesis .
qed

subsection \<open>The loop\<close>

lemma byte_at_in_range: "i < length packet \<Longrightarrow> byte_at packet i = ucast (packet ! i)"
  by (simp add: byte_at_def mask8 take_bit_8_ucast_byte)

lemma crc_loop_foldl:
  "stop_at \<le> length packet \<Longrightarrow>
   crc_loop packet bgn stop_at crc =
     foldl (\<lambda>c b. crc_body c (ucast b)) crc (take (stop_at - bgn) (drop bgn packet))"
proof (induction packet bgn stop_at crc rule: crc_loop.induct)
  case (1 packet bgn stop_at crc)
  show ?case
  proof (cases "bgn < stop_at")
    case True
    with "1.prems" have lt: "bgn < length packet" by simp
    from True have "stop_at - bgn = Suc (stop_at - Suc bgn)" by simp
    moreover from lt have "drop bgn packet = packet ! bgn # drop (Suc bgn) packet"
      by (simp add: Cons_nth_drop_Suc)
    ultimately show ?thesis
      using "1.IH" [OF True "1.prems"] True lt
      by (simp add: crc_loop.simps [of packet bgn] byte_at_in_range)
  next
    case False
    then show ?thesis by (simp add: crc_loop.simps [of packet bgn])
  qed
qed

lemma foldl_crc_body_reference:
  "foldl (\<lambda>c b. crc_body c (ucast b)) (ucast r) bs = ucast (foldl xmodem_byte r bs)"
  by (induction bs arbitrary: r) (simp_all add: crc_body_mix16 xmodem_byte_def shift8_mix16)

lemma crc_loop_reference:
  "bgn + len \<le> length packet \<Longrightarrow>
   crc_loop packet bgn (bgn + len) 0 = ucast (xmodem_reference (take len (drop bgn packet)))"
  using foldl_crc_body_reference [of 0] by (simp add: crc_loop_foldl xmodem_reference_def)

lemma unat_ucast_16_32: "unat (ucast (w :: 16 word) :: 32 word) < 65536"
  using unsigned_less [of w, where ?'a = nat]
  by (simp add: unsigned_ucast_eq take_bit_nat_eq_self)

lemma crc16xmodem_reference:
  "bgn + len \<le> length packet \<Longrightarrow>
   crc16xmodem packet bgn len None = ucast (xmodem_reference (take len (drop bgn packet)))"
  by (simp add: crc16xmodem_def crc_loop_reference)

lemma crc16xmodem_seed_0: "crc16xmodem packet bgn len (Some 0) = crc16xmodem packet bgn len None"
  by (simp add: crc16xmodem_def)

lemma crc16xmodem_uint16:
  "bgn + len \<le> length packet \<Longrightarrow> unat (crc16xmodem packet bgn len None) < 65536"
  by (simp only: crc16xmodem_reference unat_ucast_16_32)

text \<open>
  Claim C1. With seed 0 (given or left out) and a range inside the buffer,
  \<open>crc16xmodem\<close> returns the CRC16/XMODEM checksum (polynomial 0x1021, no
  reflection, initial value 0) of the bytes of the range, a value below \<open>2 ^ 16\<close>;
  an empty range gives 0, and the ASCII bytes of \<open>123456789\<close> give 0x31C3.
\<close>

theorem crc16xmodem_is_xmodem:
  assumes "bgn + len \<le> length packet" and "previous = None \<or> previous = Some 0"
  shows "crc16xmodem packet bgn len previous =
           ucast (xmodem_reference (take len (drop bgn packet)))
       \<and> unat (crc16xmodem packet bgn len previous) < 2 ^ 16
       \<and> crc16xmodem packet bgn 0 previous = 0
       \<and> crc16xmodem (map of_char ''123456789'') 0 9 previous = 0x31C3"
proof -
  have eq: "crc16xmodem p b l previous = crc16xmodem p b l None" for p b l
    using assms(2) by (auto simp add: crc16xmodem_seed_0)
  have "crc16xmodem packet bgn 0 None = 0"
    by (simp add: crc16xmodem_def crc_loop.simps [of packet bgn])
  moreover have "crc16xmodem (map of_char ''123456789'') 0 9 None = 0x31C3"
    by (simp add: crc16xmodem_def crc_loop_foldl crc_body_def Let_def)
  ultimately show ?thesis
    using crc16xmodem_reference [OF assms(1)] crc16xmodem_uint16 [OF assms(1)]
    by (simp add: eq)
qed

theorem crc16xmodem_is_xmodem_witness:
  "crc16xmodem [0x31, 0x32, 0x33] 1 2 None =
     ucast (xmodem_reference (take 2 (drop 1 [0x31, 0x32, 0x33])))
   \<and> unat (crc16xmodem [0x31, 0x32, 0x33] 1 2 None) < 2 ^ 16
   \<and> crc16xmodem [0x31, 0x32, 0x33] 1 0 None = 0
   \<and> crc16xmodem (map of_char ''123456789'') 0 9 None = 0x31C3"
proof -
  have "(1::nat) + 2 \<le> length [0x31, 0x32, 0x33 :: byte]" by simp
  then show ?thesis by (rule crc16xmodem_is_xmodem) simp
qed

section \<open>Properties of the buffer operations\<close>

lemma copy_in_range:
  assumes "sourceStart < length source" and "sourceStart < sourceEnd"
    and "targetStart < length target"
    and "sourceEnd - sourceStart \<le> length target - targetStart"
  shows "copy source target targetStart sourceStart sourceEnd =
     Inr (take targetStart target @ take (sourceEnd - sourceStart) (drop sourceStart source)
          @ drop (targetStart + min (sourceEnd - sourceStart) (length source - sourceStart)) target)"
proof (cases "length source < sourceEnd")
  from assms have ne: "target \<noteq> []" "source \<noteq> []" by auto
  case True
  then have "take (length source - sourceStart) (drop sourceStart source)
      = take (sourceEnd - sourceStart) (drop sourceStart source)"
    by simp
  with True assms ne show ?thesis
    by (simp add: copy_def Let_def min_def)
next
  from assms have ne: "target \<noteq> []" "source \<noteq> []" by auto
  case False
  with assms ne show ?thesis
    by (simp add: copy_def Let_def min_def)
qed

lemma update_two:
  assumes "offset + 2 \<le> length buf"
  shows "buf[offset := a, offset + 1 := b] = take offset buf @ [a, b] @ drop (offset + 2) buf"
proof -
  from assms have "drop (Suc offset) buf = buf ! Suc offset # drop (offset + 2) buf"
    by (simp add: Cons_nth_drop_Suc)
  with assms show ?thesis
    by (simp add: upd_conv_take_nth_drop list_update_append)
qed

lemma writeUInt16BE_ok:
  assumes "unat v < 65536" and "offset + 2 \<le> length buf"
  shows "writeUInt16BE buf v offset =
    Inr (take offset buf @ [ucast (drop_bit 8 v), ucast (v AND 0xff)] @ drop (offset + 2) buf)"
proof -
  from assms(1) have "\<not> 0xffff < v"
    by (simp add: word_less_nat_alt)
  with assms(2) show ?thesis
    by (simp only: writeUInt16BE_def update_two) simp
qed

lemma seq_byte: "(ucast ((word_of_nat n :: 32 word) AND 0xff) :: byte) = of_nat n"
  by (rule bit_eqI) (auto simp add: bit_simps mask8 dest: bit_imp_le_length)

lemma crc_high_byte: "(ucast (drop_bit 8 (ucast (c :: 16 word) :: 32 word)) :: byte) = ucast (drop_bit 8 c)"
  by (rule bit_eqI) (auto simp add: bit_simps dest: bit_imp_le_length)

lemma crc_low_byte: "(ucast ((ucast (c :: 16 word) :: 32 word) AND 0xff) :: byte) = ucast c"
  by (rule bit_eqI) (auto simp add: bit_simps mask8 dest: bit_imp_le_length)

section \<open>The packets of \<open>splitFile\<close>\<close>

lemma index_lt_maxPack: "i < (L + 1023) div 1024 \<longleftrightarrow> 1024 * i < (L::nat)"
proof -
  have "i < (L + 1023) div 1024 \<longleftrightarrow> Suc i \<le> (L + 1023) div 1024" by (simp add: Suc_le_eq)
  also have "\<dots> \<longleftrightarrow> Suc i * 1024 \<le> L + 1023" by (simp add: less_eq_div_iff_mult_less_eq)
  also have "\<dots> \<longleftrightarrow> 1024 * i < L" by auto
  finally show ?thesis .
qed

lemma maxPack_le: "(L + 1023) div 1024 \<le> k \<longleftrightarrow> (L::nat) \<le> 1024 * k"
proof -
  have "(L + 1023) div 1024 \<le> k \<longleftrightarrow> \<not> k < (L + 1023) div 1024" by (simp add: not_less)
  also have "\<dots> \<longleftrightarrow> L \<le> 1024 * k" by (simp add: index_lt_maxPack not_less)
  finally show ?thesis .
qed

lemma is_last_iff: "i + 1 = (L + 1023) div 1024 \<longleftrightarrow> 1024 * i < L \<and> (L::nat) \<le> 1024 * i + 1024"
proof -
  have "i + 1 = (L + 1023) div 1024 \<longleftrightarrow> i < (L + 1023) div 1024 \<and> (L + 1023) div 1024 \<le> i + 1"
    by auto
  then show ?thesis by (simp only: index_lt_maxPack maxPack_le) auto
qed

lemma update_three:
  assumes "3 \<le> length xs"
  shows "xs[0 := a, 1 := b, 2 := c] = a # b # c # drop 3 xs"
proof -
  from assms obtain x y z rest where "xs = x # y # z # rest"
    by (metis Suc_le_length_iff numeral_3_eq_3)
  then show ?thesis by (simp add: numeral_2_eq_2)
qed

lemma alloc_header:
  "(alloc (n + 3 + 2) f)[0 := a, 1 := b, 2 := c] = [a, b, c] @ replicate n f @ [f, f]"
proof -
  have "replicate (n + 2) f = replicate n f @ replicate 2 f"
    by (rule replicate_add)
  also have "replicate 2 f = [f, f]"
    by (simp add: numeral_2_eq_2)
  finally have "replicate (n + 2) f = replicate n f @ [f, f]" .
  moreover have "drop 3 (replicate (n + 3 + 2) f) = replicate (n + 2) f"
    by (simp del: replicate_Suc)
  ultimately have "drop 3 (replicate (n + 3 + 2) f) = replicate n f @ [f, f]"
    by (simp only:)
  then show ?thesis
    unfolding alloc_def by (subst update_three) simp_all
qed

lemma drop_header:
  "k \<le> n \<Longrightarrow> drop (3 + k) ([a, b, c] @ replicate n f @ [f, f]) = replicate (n - k) f @ [f, f]"
  by (simp add: numeral_3_eq_3)

lemma alloc_second: "(alloc (n + 3 + 2) f)[0 := a, 1 := b] ! 1 = b"
  by (simp add: alloc_def)

lemma seal_chunk:
  assumes "length body = n" and "length hdr = 3" and "length rest = 2"
  shows "(let crc = crc16xmodem (hdr @ body @ rest) 3 n None
          in writeUInt16BE (hdr @ body @ rest) crc (length (hdr @ body @ rest) - 2))
       = Inr (hdr @ body @ crc_trailer body)"
proof -
  have range: "3 + n \<le> length (hdr @ body @ rest)" using assms by simp
  have crc: "crc16xmodem (hdr @ body @ rest) 3 n None = ucast (xmodem_reference body)"
    using assms by (simp add: crc16xmodem_reference [OF range])
  have small: "unat (ucast (xmodem_reference body) :: 32 word) < 65536"
    by (rule unat_ucast_16_32)
  have fits: "(length (hdr @ body @ rest) - 2) + 2 \<le> length (hdr @ body @ rest)"
    using assms by simp
  show ?thesis
    unfolding Let_def crc writeUInt16BE_ok [OF small fits]
    using assms by (simp add: crc_trailer_def crc_high_byte crc_low_byte)
qed

lemma fill_chunk:
  assumes start: "1024 * i < length buffer" and n: "0 < n"
    and pad: "fill = 0x1A \<or> 1024 * i + n \<le> length buffer"
  shows "copy buffer ([a, b, c] @ replicate n fill @ [fill, fill]) 3 (1024 * i) (1024 * i + n)
       = Inr ([a, b, c] @ padded n (take n (drop (1024 * i) buffer)) @ [fill, fill])"
proof -
  define bytes where "bytes = take n (drop (1024 * i) buffer)"
  define target where "target = [a, b, c] @ replicate n fill @ [fill, fill]"
  have len: "length bytes = min n (length buffer - 1024 * i)" by (simp add: bytes_def)
  have "copy buffer target 3 (1024 * i) (1024 * i + n)
      = Inr (take 3 target @ take (1024 * i + n - 1024 * i) (drop (1024 * i) buffer)
          @ drop (3 + min (1024 * i + n - 1024 * i) (length buffer - 1024 * i)) target)"
    by (rule copy_in_range) (use start n in \<open>simp_all add: target_def\<close>)
  also have "take 3 target = [a, b, c]"
    by (simp add: target_def)
  also have "1024 * i + n - 1024 * i = n" by simp
  also have "min n (length buffer - 1024 * i) = length bytes" by (simp add: len)
  also have "drop (3 + length bytes) target = replicate (n - length bytes) fill @ [fill, fill]"
    unfolding target_def by (rule drop_header) (simp add: len)
  also have "replicate (n - length bytes) fill = replicate (n - length bytes) 0x1A"
    using pad len by auto
  finally show ?thesis by (simp add: padded_def bytes_def target_def)
qed

lemma length_padded: "length bytes \<le> n \<Longrightarrow> length (padded n bytes) = n"
  by (simp add: padded_def)

lemma build_chunk:
  assumes "1024 * i < length buffer" and "0 < n"
    and "fill = 0x1A \<or> 1024 * i + n \<le> length buffer"
  shows "andThen
           (copy buffer
              ((alloc (n + 3 + 2) fill)
                 [0 := mk, 1 := s, 2 := 0xff - (alloc (n + 3 + 2) fill)[0 := mk, 1 := s] ! 1])
              3 (1024 * i) (1024 * i + n))
           (\<lambda>chunk. let crc = crc16xmodem chunk 3 n None
                    in writeUInt16BE chunk crc (length chunk - 2))
       = Inr ([mk, s, 0xff - s] @ padded n (take n (drop (1024 * i) buffer))
               @ crc_trailer (padded n (take n (drop (1024 * i) buffer))))"
proof -
  have len: "length (padded n (take n (drop (1024 * i) buffer))) = n"
    by (rule length_padded) simp
  show ?thesis
    unfolding alloc_second alloc_header fill_chunk [OF assms] andThen_def sum.case
    by (rule seal_chunk) (simp_all add: len)
qed

lemma splitFile_body_packet:
  assumes i: "1024 * i < length buffer" and m: "maxPack = (length buffer + 1023) div 1024"
  shows "splitFile_body buffer (length buffer) maxPack i = Inr (data_packet buffer i)"
proof -
  define n where "n = packSize_of (length buffer) i"
  define fill :: byte where "fill = (if i + 1 = maxPack then 0x1A else 0x00)"
  have n_pos: "0 < n" by (simp add: n_def packSize_of_def)
  have pad: "fill = 0x1A \<or> 1024 * i + n \<le> length buffer"
  proof (cases "i + 1 = maxPack")
    case True
    then show ?thesis by (simp add: fill_def)
  next
    case False
    with i m have "1024 * i + 1024 < length buffer"
      by (simp add: is_last_iff not_le)
    moreover from False m have "n = 1024" by (simp add: n_def packSize_of_def)
    ultimately show ?thesis by simp
  qed
  have size: "(if i + 1 = maxPack \<and> int (length buffer) - int (i * 1024) \<le> 128 then 128 else 1024) = n"
    unfolding n_def packSize_of_def m by (rule if_cong) auto
  show ?thesis
    unfolding splitFile_body_def Let_def PACKET_SIZE_1024_def PACKET_SIZE_128_def size
      fill_def [symmetric] seq_byte
    unfolding build_chunk [OF i n_pos pad, unfolded Let_def] data_packet_def Let_def n_def [symmetric]
    by simp
qed

lemma splitFile_loop_packets:
  assumes m: "maxPack = (length buffer + 1023) div 1024"
  shows "splitFile_loop buffer (length buffer) maxPack i array
       = Inr (array @ map (data_packet buffer) [i..<maxPack])"
proof (induction k \<equiv> "maxPack - i" arbitrary: i array)
  case 0
  then show ?case by (simp add: splitFile_loop.simps [of _ _ _ i])
next
  case (Suc k)
  then have lt: "i < maxPack" and k: "k = maxPack - Suc i" by simp_all
  from lt m have "1024 * i < length buffer" by (simp add: index_lt_maxPack)
  then have body: "splitFile_body buffer (length buffer) maxPack i = Inr (data_packet buffer i)"
    using m by (rule splitFile_body_packet)
  from lt have "[i..<maxPack] = i # [Suc i..<maxPack]" by (simp add: upt_conv_Cons)
  then show ?case
    using lt Suc.hyps(1) [OF k] by (simp add: splitFile_loop.simps [of _ _ _ i] body)
qed

lemma splitFile_packets:
  "splitFile buffer = Inr (map (data_packet buffer) [0..<(length buffer + 1023) div 1024])"
proof -
  have "length buffer + 1024 - 1 = length buffer + 1023" by simp
  then show ?thesis
    unfolding splitFile_def Let_def PACKET_SIZE_1024_def
    by (simp only: splitFile_loop_packets append_Nil)
qed

section \<open>The packet of \<open>makeFileHeader\<close>\<close>

lemma length_utf8ToBytes: "length (utf8ToBytes s units) \<le> units"
  by (induction s units rule: utf8ToBytes.induct) (auto simp add: Let_def)

lemma utf8_ascii:
  "\<forall>c\<in>set s. (of_char c :: nat) < 0x80 \<Longrightarrow> length s \<le> units \<Longrightarrow>
   utf8ToBytes s units = map of_char s"
  by (induction s arbitrary: units) (auto simp add: Let_def of_nat_of_char)

lemma buf_write_zeros:
  assumes "g \<le> k" and "bytes = utf8ToBytes s (k - g)"
  shows "buf_write (H @ replicate k 0) s (length H + g)
       = Inr (H @ replicate g 0 @ bytes @ replicate (k - g - length bytes) 0)"
proof -
  have len: "length bytes \<le> k - g"
    unfolding assms(2) by (rule length_utf8ToBytes)
  have "take (length H + g) (H @ replicate k 0) = H @ replicate g 0"
    using assms(1) by (simp add: min_def)
  moreover have "drop (length H + g + length bytes) (H @ replicate k 0)
      = replicate (k - g - length bytes) 0"
    by (simp add: algebra_simps)
  moreover have "length (H @ replicate k 0) - (length H + g) = k - g" by simp
  ultimately show ?thesis
    using assms by (simp add: buf_write_def Let_def)
qed

lemma toString_small: "n < 10 \<Longrightarrow> toString n = [char_of (48 + n)]"
  by (simp add: toString.simps)

lemma toString_large:
  "\<not> n < 10 \<Longrightarrow> toString n = toString (n div 10) @ [char_of (48 + n mod 10)]"
  by (subst toString.simps) simp

lemma toString_digits: "c \<in> set (toString n) \<Longrightarrow> 48 \<le> (of_char c :: nat) \<and> (of_char c :: nat) < 58"
proof (induction n rule: toString.induct)
  case (1 n)
  show ?case
  proof (cases "n < 10")
    case True
    with "1.prems" show ?thesis by (auto simp add: toString_small)
  next
    case False
    have "n mod 10 < 10" by simp
    then have "(48 + n mod 10) mod 256 = 48 + n mod 10" by simp
    with False "1.prems" "1.IH" show ?thesis
      by (auto simp add: toString_large)
  qed
qed

lemma unat_of_char: "unat (of_char c :: byte) = of_char c"
proof -
  have "unat (of_nat (of_char c) :: byte) = of_char c mod 256"
    by (simp add: unat_of_nat)
  then show ?thesis by (simp add: of_nat_of_char)
qed

lemma digit_byte: "d < 10 \<Longrightarrow> unat (of_char (char_of (48 + d)) :: byte) = 48 + d"
  by (simp add: unat_of_char)

lemma decimal_value_snoc: "decimal_value (ds @ [d]) = 10 * decimal_value ds + (unat d - 48)"
  by (simp add: decimal_value_def)

lemma decimal_value_toString: "decimal_value (map of_char (toString n)) = n"
proof (induction n rule: toString.induct)
  case (1 n)
  show ?case
  proof (cases "n < 10")
    case True
    then show ?thesis by (simp add: toString_small decimal_value_def digit_byte)
  next
    case False
    then have "decimal_value (map of_char (toString (n div 10))) = n div 10"
      by (rule "1.IH")
    with False show ?thesis
      by (simp add: toString_large decimal_value_snoc digit_byte)
  qed
qed

lemma toString_nonempty: "toString n \<noteq> []"
  by (cases "n < 10") (simp_all add: toString_small toString_large)

lemma header_alloc:
  "(alloc (128 + 3 + 2) 0)[0 := SOH, 1 := 0, 2 := 0xff] = [SOH, 0, 0xff] @ replicate 130 0"
proof -
  have "replicate 128 (0::byte) @ [0, 0] = replicate 128 0 @ replicate 2 0"
    by (simp add: numeral_2_eq_2)
  also have "\<dots> = replicate 130 0"
    by (simp add: replicate_add [symmetric] del: replicate_Suc)
  finally show ?thesis by (simp only: alloc_header)
qed

lemma seal_header:
  assumes "length Q = 130" and "length H = 3"
  shows "writeUInt16BE (H @ Q) (crc16xmodem (H @ Q) 3 128 None) (length (H @ Q) - 2)
       = Inr (H @ take 128 Q @ crc_trailer (take 128 Q))"
proof -
  have split: "H @ Q = H @ take 128 Q @ drop 128 Q" by simp
  have "(let crc = crc16xmodem (H @ take 128 Q @ drop 128 Q) 3 128 None
         in writeUInt16BE (H @ take 128 Q @ drop 128 Q) crc (length (H @ take 128 Q @ drop 128 Q) - 2))
      = Inr (H @ take 128 Q @ crc_trailer (take 128 Q))"
    by (rule seal_chunk) (use assms in simp_all)
  then show ?thesis by (simp only: Let_def split [symmetric])
qed

lemma length_header_text: "length (header_text name n) = length name + length (toString n) + 2"
  by (simp add: header_text_def)

lemma makeFileHeader_ascii:
  assumes name: "name \<noteq> []" and size: "n \<noteq> 0"
    and ascii: "\<forall>c\<in>set name. (of_char c :: nat) < 0x80"
    and fits: "length (header_text name n) \<le> 130"
  defines "Q \<equiv> header_text name n @ replicate (130 - length (header_text name n)) 0"
  shows "makeFileHeader name n = Inr ([SOH, 0, 0xff] @ take 128 Q @ crc_trailer (take 128 Q))"
proof -
  define H :: "byte list" where "H = [SOH, 0, 0xff]"
  define l1 where "l1 = length name"
  define digits where "digits = toString n @ '' ''"
  define l2 where "l2 = length digits"
  from fits have le: "l1 + 1 + l2 \<le> 130"
    by (simp add: length_header_text l1_def l2_def digits_def)
  have H3: "length H = 3" by (simp add: H_def)
  have bytes1: "utf8ToBytes name (130 - 0) = map of_char name"
    using ascii le by (simp add: utf8_ascii l1_def)
  have first: "buf_write (H @ replicate 130 0) name 3
      = Inr ((H @ map of_char name) @ replicate (130 - l1) 0)"
    using buf_write_zeros [of 0 130 "map of_char name" name H] bytes1
    by (simp add: H3 l1_def)
  have ascii2: "\<forall>c\<in>set digits. (of_char c :: nat) < 0x80"
    by (auto simp add: digits_def dest!: toString_digits)
  have bytes2: "utf8ToBytes digits (130 - l1 - 1) = map of_char digits"
    using ascii2 le by (simp add: utf8_ascii l2_def)
  have second: "buf_write ((H @ map of_char name) @ replicate (130 - l1) 0) digits (3 + length name + 1)
      = Inr ((H @ map of_char name) @ replicate 1 0 @ map of_char digits
             @ replicate (130 - l1 - 1 - l2) 0)"
    using buf_write_zeros [of 1 "130 - l1" "map of_char digits" digits "H @ map of_char name"]
      bytes2 le
    by (simp add: H3 l1_def l2_def)
  have whole: "(H @ map of_char name) @ replicate 1 0 @ map of_char digits
      @ replicate (130 - l1 - 1 - l2) 0 = H @ Q"
    using le by (simp add: Q_def header_text_def digits_def l1_def l2_def)
  have lenQ: "length Q = 130"
    using fits by (simp add: Q_def)
  show ?thesis
    unfolding makeFileHeader_def Let_def header_alloc
    using name size
    by (simp only: if_True not_False_eq_True H_def [symmetric] first andThen_def sum.case prod.case
        digits_def [symmetric] second whole seal_header [OF lenQ H3])
qed

lemma makeFileHeader_no_size:
  defines "Q \<equiv> \<lambda>name. utf8ToBytes name 130 @ replicate (130 - length (utf8ToBytes name 130)) 0"
  shows "makeFileHeader name 0 = Inr ([SOH, 0, 0xff] @ take 128 (Q name) @ crc_trailer (take 128 (Q name)))"
proof -
  define H :: "byte list" where "H = [SOH, 0, 0xff]"
  have H3: "length H = 3" by (simp add: H_def)
  have first: "buf_write (H @ replicate 130 0) name 3 = Inr (H @ Q name)"
    using buf_write_zeros [of 0 130 "utf8ToBytes name 130" name H]
    by (simp add: H3 Q_def)
  have empty: "Q [] = replicate 130 0" by (simp add: Q_def)
  have lenQ: "length (Q x) = 130" for x
    using length_utf8ToBytes [of x 130] by (simp add: Q_def)
  show ?thesis
  proof (cases "name = []")
    case True
    show ?thesis
      unfolding makeFileHeader_def Let_def header_alloc True
      by (simp only: if_False simp_thms H_def [symmetric] andThen_def sum.case prod.case
          empty [symmetric] seal_header [OF lenQ H3])
  next
    case False
    then show ?thesis
      unfolding makeFileHeader_def Let_def header_alloc
      by (simp only: if_True if_False simp_thms H_def [symmetric] first andThen_def sum.case prod.case
          seal_header [OF lenQ H3])
  qed
qed


section \<open>What \<open>splitFile\<close> returns\<close>

lemma packet_parts:
  assumes "length T = 2"
  shows "marker ([a, b, c] @ P @ T) = a" and "sequence ([a, b, c] @ P @ T) = b"
    and "complement ([a, b, c] @ P @ T) = c" and "payload ([a, b, c] @ P @ T) = P"
    and "trailer ([a, b, c] @ P @ T) = T" and "length ([a, b, c] @ P @ T) = length P + 5"
  using assms
  by (simp_all add: marker_def sequence_def complement_def payload_def trailer_def numeral_2_eq_2)

lemma length_crc_trailer: "length (crc_trailer bytes) = 2"
  by (simp add: crc_trailer_def)

lemma length_chunk_bytes:
  "length (padded (packSize_of L i) (take (packSize_of L i) (drop k buffer))) = packSize_of L i"
  by (rule length_padded) simp

lemma payload_data_packet:
  "payload (data_packet buffer i) =
     padded (packSize_of (length buffer) i)
       (take (packSize_of (length buffer) i) (drop (1024 * i) buffer))"
  by (simp only: data_packet_def Let_def packet_parts [OF length_crc_trailer])

lemma length_payload_data_packet:
  "length (payload (data_packet buffer i)) = packSize_of (length buffer) i"
  by (simp only: payload_data_packet length_chunk_bytes)

lemma marker_data_packet:
  "marker (data_packet buffer i) = (if packSize_of (length buffer) i = 1024 then STX else SOH)"
  by (simp only: data_packet_def Let_def packet_parts [OF length_crc_trailer])

lemma sequence_data_packet: "sequence (data_packet buffer i) = of_nat (i + 1)"
  by (simp only: data_packet_def Let_def packet_parts [OF length_crc_trailer])

lemma complement_data_packet: "complement (data_packet buffer i) = 0xff - of_nat (i + 1)"
  by (simp only: data_packet_def Let_def packet_parts [OF length_crc_trailer])

lemma trailer_data_packet:
  "trailer (data_packet buffer i) = crc_trailer (payload (data_packet buffer i))"
  unfolding payload_data_packet
  by (simp only: data_packet_def Let_def packet_parts [OF length_crc_trailer])

lemma length_data_packet:
  "length (data_packet buffer i) = packSize_of (length buffer) i + 5"
  by (simp only: data_packet_def Let_def packet_parts [OF length_crc_trailer] length_chunk_bytes)

lemma unat_complement: "unat (0xff - (s :: byte)) = 255 - unat s"
proof -
  have "s \<le> 0xff" by (simp add: word_le_nat_alt) (use unsigned_less [of s, where ?'a = nat] in simp)
  then show ?thesis by (simp add: unat_sub)
qed

lemma crc_of_payload_region:
  assumes "length T = 2"
  shows "crc16xmodem ([a, b, c] @ P @ T) 3 (length P) None = ucast (xmodem_reference P)"
proof -
  have "3 + length P \<le> length ([a, b, c] @ P @ T)" by simp
  then show ?thesis by (simp add: crc16xmodem_reference)
qed

lemma splitFile_nth:
  assumes "splitFile buffer = Inr packets" and "k < length packets"
  shows "packets ! k = data_packet buffer k"
    and "length packets = (length buffer + 1023) div 1024"
  using assms by (auto simp add: splitFile_packets)

lemma crc_of_data_packet:
  "crc16xmodem (data_packet buffer i) 3 (length (payload (data_packet buffer i))) None
     = ucast (xmodem_reference (payload (data_packet buffer i)))"
proof -
  have "3 + length (payload (data_packet buffer i)) \<le> length (data_packet buffer i)"
    by (simp add: length_payload_data_packet length_data_packet)
  then have "crc16xmodem (data_packet buffer i) 3 (length (payload (data_packet buffer i))) None
     = ucast (xmodem_reference
         (take (length (payload (data_packet buffer i))) (drop 3 (data_packet buffer i))))"
    by (rule crc16xmodem_reference)
  also have "take (length (payload (data_packet buffer i))) (drop 3 (data_packet buffer i))
      = payload (data_packet buffer i)"
    by (simp add: payload_def length_payload_data_packet length_data_packet)
  finally show ?thesis .
qed

lemma crc_trailer_crc16xmodem:
  "crc_trailer bytes =
     [ucast (drop_bit 8 (crc16xmodem bytes 0 (length bytes) None)),
      ucast (crc16xmodem bytes 0 (length bytes) None AND 0xff)]"
proof -
  have "crc16xmodem bytes 0 (length bytes) None = ucast (xmodem_reference bytes)"
    using crc16xmodem_reference [of 0 "length bytes" bytes] by simp
  then show ?thesis by (simp add: crc_trailer_def crc_high_byte crc_low_byte)
qed

text \<open>
  Claim C2. Of the packets that \<open>splitFile\<close> returns for a buffer (it returns
  for every buffer, as the theorems of C3 and C4 show), the \<open>i\<close>-th, counted from
  1, has a payload region of 1024 or of 128 bytes; its marker is STX exactly
  when the region has 1024 bytes and SOH exactly when it has 128; its sequence byte
  is \<open>i mod 256\<close> and its complement byte 0xFF minus the sequence byte; the
  payload region holds the file bytes from \<open>1024 * (i - 1)\<close> on, filled up on the
  right with 0x1A where the file has fewer bytes left than the region; the last two
  bytes are the CRC16 of the payload region alone (the same value that
  \<open>crc16xmodem\<close> gives from offset 3 of the packet), high byte first.
\<close>

theorem splitFile_packet_layout:
  assumes "splitFile buffer = Inr packets" and "1 \<le> i" and "i \<le> length packets"
  shows "let p = packets ! (i - 1); n = length (payload p) in
           length p = 3 + n + 2
         \<and> (n = 1024 \<or> n = 128)
         \<and> (marker p = STX \<longleftrightarrow> n = 1024)
         \<and> (marker p = SOH \<longleftrightarrow> n = 128)
         \<and> unat (sequence p) = i mod 256
         \<and> unat (complement p) = 0xFF - unat (sequence p)
         \<and> payload p = padded n (take n (drop (1024 * (i - 1)) buffer))
         \<and> trailer p =
             [ucast (drop_bit 8 (crc16xmodem (payload p) 0 n None)),
              ucast (crc16xmodem (payload p) 0 n None AND 0xff)]
         \<and> trailer p =
             [ucast (drop_bit 8 (crc16xmodem p 3 n None)), ucast (crc16xmodem p 3 n None AND 0xff)]
         \<and> crc16xmodem p 3 n None = ucast (xmodem_reference (payload p))"
proof -
  from assms have k: "i - 1 < length packets" and i: "i - 1 + 1 = i" by simp_all
  define q where "q = data_packet buffer (i - 1)"
  have p: "packets ! (i - 1) = q"
    unfolding q_def using assms(1) k by (rule splitFile_nth)
  define n where "n = length (payload q)"
  have n_eq: "n = packSize_of (length buffer) (i - 1)"
    by (simp add: n_def q_def length_payload_data_packet)
  have f1: "length q = 3 + n + 2"
    by (simp add: q_def length_data_packet n_eq)
  have f2: "n = 1024 \<or> n = 128"
    by (simp add: n_eq packSize_of_def)
  have mk: "marker q = (if n = 1024 then STX else SOH)"
    by (simp add: q_def marker_data_packet n_eq)
  have f3: "marker q = STX \<longleftrightarrow> n = 1024"
    using f2 by (auto simp add: mk STX_def SOH_def)
  have f4: "marker q = SOH \<longleftrightarrow> n = 128"
    using f2 by (auto simp add: mk STX_def SOH_def)
  have sq: "sequence q = of_nat i"
    by (simp only: q_def sequence_data_packet i)
  have f5: "unat (sequence q) = i mod 256"
    by (simp add: sq unat_of_nat)
  have "complement q = 0xff - sequence q"
    by (simp only: q_def sequence_data_packet complement_data_packet)
  then have f6: "unat (complement q) = 0xFF - unat (sequence q)"
    by (simp only: unat_complement)
  have f7: "payload q = padded n (take n (drop (1024 * (i - 1)) buffer))"
    by (simp add: n_eq q_def payload_data_packet)
  have f10: "crc16xmodem q 3 n None = ucast (xmodem_reference (payload q))"
    unfolding n_def q_def by (rule crc_of_data_packet)
  have tr: "trailer q = crc_trailer (payload q)"
    unfolding q_def by (rule trailer_data_packet)
  have f8: "trailer q =
      [ucast (drop_bit 8 (crc16xmodem (payload q) 0 n None)),
       ucast (crc16xmodem (payload q) 0 n None AND 0xff)]"
    unfolding tr n_def by (rule crc_trailer_crc16xmodem)
  have f9: "trailer q =
      [ucast (drop_bit 8 (crc16xmodem q 3 n None)), ucast (crc16xmodem q 3 n None AND 0xff)]"
    unfolding tr f10 by (simp add: crc_trailer_def crc_high_byte crc_low_byte)
  show ?thesis
    unfolding Let_def p n_def [symmetric]
    using f1 f2 f3 f4 f5 f6 f7 f8 f9 f10 by blast
qed

lemma last_remainder:
  assumes "1024 * k < (L::nat)" and "L \<le> 1024 * k + 1024"
  shows "L mod 1024 = (if L = 1024 * k + 1024 then 0 else L - 1024 * k)"
proof (cases "L = 1024 * k + 1024")
  case True
  then show ?thesis by simp
next
  case False
  define r where "r = L - 1024 * k"
  with assms False have "r < 1024" and "L = 1024 * k + r" by simp_all
  then have "L mod 1024 = r" by simp
  with False show ?thesis by (simp add: r_def)
qed

lemma ceiling_maxPack: "\<lceil>real L / 1024\<rceil> = int ((L + 1023) div 1024)"
proof -
  define M where "M = (L + 1023) div 1024"
  have up: "L \<le> 1024 * M" using maxPack_le [of L M] by (simp add: M_def)
  have low: "1024 * M < L + 1024"
  proof (cases M)
    case 0
    then show ?thesis by simp
  next
    case (Suc m)
    then have "m < (L + 1023) div 1024" by (simp add: M_def)
    then have "1024 * m < L" by (simp only: index_lt_maxPack)
    with Suc show ?thesis by simp
  qed
  from up have "real L / 1024 \<le> real M" by simp
  moreover from low have "real M - 1 < real L / 1024" by simp
  ultimately have "\<lceil>real L / 1024\<rceil> = int M"
    by (intro ceiling_unique) simp_all
  then show ?thesis by (simp only: M_def)
qed


lemma non_last_payload:
  assumes "k + 1 < (length buffer + 1023) div 1024"
  shows "payload (data_packet buffer k) = take 1024 (drop (1024 * k) buffer)"
    and "length (payload (data_packet buffer k)) = 1024"
proof -
  from assms have "1024 * (k + 1) < length buffer" by (simp only: index_lt_maxPack)
  then have full: "length (take 1024 (drop (1024 * k) buffer)) = 1024" by simp
  from assms have n: "packSize_of (length buffer) k = 1024" by (simp add: packSize_of_def)
  show "payload (data_packet buffer k) = take 1024 (drop (1024 * k) buffer)"
    unfolding payload_data_packet n padded_def full by simp
  show "length (payload (data_packet buffer k)) = 1024"
    by (simp only: length_payload_data_packet n)
qed

lemma last_payload:
  assumes "k + 1 = (length buffer + 1023) div 1024"
  defines "n \<equiv> packSize_of (length buffer) k"
  shows "payload (data_packet buffer k) =
           drop (1024 * k) buffer @ replicate (n - length (drop (1024 * k) buffer)) 0x1A"
    and "length (drop (1024 * k) buffer) \<le> n"
    and "n = (if length buffer \<le> 1024 * k + 128 then 128 else 1024)"
    and "length buffer mod 1024 =
           (if length buffer = 1024 * k + 1024 then 0 else length (drop (1024 * k) buffer))"
    and "0 < length (drop (1024 * k) buffer)"
proof -
  from assms(1) have range: "1024 * k < length buffer" "length buffer \<le> 1024 * k + 1024"
    by (simp_all add: is_last_iff)
  show n: "n = (if length buffer \<le> 1024 * k + 128 then 128 else 1024)"
    using assms(1) by (simp add: n_def packSize_of_def)
  show le: "length (drop (1024 * k) buffer) \<le> n"
    using range by (auto simp add: n)
  then have "take n (drop (1024 * k) buffer) = drop (1024 * k) buffer" by simp
  then show "payload (data_packet buffer k) =
           drop (1024 * k) buffer @ replicate (n - length (drop (1024 * k) buffer)) 0x1A"
    unfolding payload_data_packet n_def [symmetric] padded_def by (simp only:)
  show "length buffer mod 1024 =
           (if length buffer = 1024 * k + 1024 then 0 else length (drop (1024 * k) buffer))"
    using last_remainder [OF range] by simp
  show "0 < length (drop (1024 * k) buffer)" using range by simp
qed

text \<open>
  Claim C3, as amended. For a buffer of \<open>L\<close> bytes \<open>splitFile\<close> returns
  \<open>ceil(L / 1024)\<close> packets. Every packet but the last has a payload region of
  1024 file bytes. The payload region of the last packet has 1024 bytes when
  \<open>L mod 1024\<close> exceeds 128: its first \<open>L mod 1024\<close> bytes are the rest of the
  file, the others are 0x1A. It has 128 bytes when \<open>L mod 1024\<close> is at most 128
  and not 0: again the rest of the file, then 0x1A. When \<open>L\<close> is a multiple of
  1024 it has 1024 file bytes.
\<close>

theorem splitFile_count_and_sizes:
  "\<exists>packets. splitFile buffer = Inr packets
     \<and> int (length packets) = \<lceil>real (length buffer) / 1024\<rceil>
     \<and> (\<forall>k < length packets.
          let p = packets ! k; rest = drop (1024 * k) buffer
          in if k + 1 < length packets then
               length (payload p) = 1024 \<and> payload p = take 1024 rest
             else if 128 < length buffer mod 1024 then
               length (payload p) = 1024 \<and> length rest = length buffer mod 1024
               \<and> payload p = rest @ replicate (1024 - length buffer mod 1024) 0x1A
             else if 0 < length buffer mod 1024 then
               length (payload p) = 128 \<and> length rest = length buffer mod 1024
               \<and> payload p = rest @ replicate (128 - length buffer mod 1024) 0x1A
             else
               length (payload p) = 1024 \<and> payload p = rest)"
proof -
  define M where "M = (length buffer + 1023) div 1024"
  define packets where "packets = map (data_packet buffer) [0..<M]"
  have split: "splitFile buffer = Inr packets"
    by (simp only: splitFile_packets packets_def M_def)
  have len: "length packets = M" by (simp add: packets_def)
  have count: "int (length packets) = \<lceil>real (length buffer) / 1024\<rceil>"
    by (simp only: len M_def ceiling_maxPack)
  have each: "let p = packets ! k; rest = drop (1024 * k) buffer
          in if k + 1 < length packets then
               length (payload p) = 1024 \<and> payload p = take 1024 rest
             else if 128 < length buffer mod 1024 then
               length (payload p) = 1024 \<and> length rest = length buffer mod 1024
               \<and> payload p = rest @ replicate (1024 - length buffer mod 1024) 0x1A
             else if 0 < length buffer mod 1024 then
               length (payload p) = 128 \<and> length rest = length buffer mod 1024
               \<and> payload p = rest @ replicate (128 - length buffer mod 1024) 0x1A
             else
               length (payload p) = 1024 \<and> payload p = rest"
    if k: "k < length packets" for k
  proof -
    from k have p: "packets ! k = data_packet buffer k" by (simp add: packets_def)
    show ?thesis
    proof (cases "k + 1 < M")
      case True
      then show ?thesis
        unfolding Let_def p len using non_last_payload [of k buffer] by (simp add: M_def)
    next
      case False
      with k have last: "k + 1 = (length buffer + 1023) div 1024" by (simp add: len M_def)
      note facts = last_payload [OF last]
      define rest where "rest = drop (1024 * k) buffer"
      define n where "n = packSize_of (length buffer) k"
      have pn: "length (payload (data_packet buffer k)) = n"
        by (simp only: length_payload_data_packet n_def)
      from facts(3) have n_cases: "n = (if length buffer \<le> 1024 * k + 128 then 128 else 1024)"
        by (simp only: n_def)
      from facts(1) have body: "payload (data_packet buffer k) = rest @ replicate (n - length rest) 0x1A"
        by (simp only: n_def rest_def)
      from facts(4) have md: "length buffer mod 1024 =
           (if length buffer = 1024 * k + 1024 then 0 else length rest)"
        by (simp only: rest_def)
      have lr: "length rest = length buffer - 1024 * k" by (simp add: rest_def)
      from facts(5) have pos: "0 < length rest" by (simp only: rest_def)
      from facts(2) have le: "length rest \<le> n" by (simp only: rest_def n_def)
      show ?thesis
        unfolding Let_def p len pn rest_def [symmetric] body
        using False n_cases md lr pos le
        by (auto simp add: M_def split: if_splits)
    qed
  qed
  from split count each show ?thesis by blast
qed

lemma concat_chunks:
  "concat (map (\<lambda>k. take 1024 (drop (1024 * k) xs)) [0..<m]) = take (1024 * m) xs"
proof (induction m)
  case 0
  show ?case by simp
next
  case (Suc m)
  have "1024 * Suc m = 1024 * m + 1024" by simp
  then have "take (1024 * Suc m) xs = take (1024 * m) xs @ take 1024 (drop (1024 * m) xs)"
    by (simp only: take_add)
  with Suc show ?case by simp
qed

lemma concat_payloads:
  "\<exists>pad. concat (map (\<lambda>k. payload (data_packet buffer k)) [0..<(length buffer + 1023) div 1024])
     = buffer @ pad"
proof (cases "(length buffer + 1023) div 1024")
  case 0
  then have "length buffer = 0" using maxPack_le [of "length buffer" 0] by simp
  with 0 show ?thesis by simp
next
  case (Suc m)
  have early: "payload (data_packet buffer k) = take 1024 (drop (1024 * k) buffer)" if "k < m" for k
    using that Suc by (intro non_last_payload) simp
  have "map (\<lambda>k. payload (data_packet buffer k)) [0..<m]
      = map (\<lambda>k. take 1024 (drop (1024 * k) buffer)) [0..<m]"
    by (rule map_cong) (simp_all add: early)
  then have front: "concat (map (\<lambda>k. payload (data_packet buffer k)) [0..<m]) = take (1024 * m) buffer"
    by (simp only: concat_chunks)
  from Suc have "m + 1 = (length buffer + 1023) div 1024" by simp
  from last_payload(1) [OF this] obtain pad
    where "payload (data_packet buffer m) = drop (1024 * m) buffer @ pad" by blast
  with front have "concat (map (\<lambda>k. payload (data_packet buffer k)) [0..<Suc m]) = buffer @ pad"
    by simp
  with Suc show ?thesis by auto
qed

text \<open>
  Claim C4. The payload regions of the packets of \<open>splitFile\<close>, concatenated in
  order and cut to the length of the buffer, are the buffer.
\<close>

theorem splitFile_round_trip:
  "\<exists>packets. splitFile buffer = Inr packets
     \<and> take (length buffer) (concat (map payload packets)) = buffer"
proof -
  obtain pad where "concat (map payload (map (data_packet buffer) [0..<(length buffer + 1023) div 1024]))
      = buffer @ pad"
    using concat_payloads [of buffer] by (auto simp add: comp_def)
  then show ?thesis by (simp add: splitFile_packets)
qed

theorem splitFile_round_trip_witness:
  "\<exists>packets. splitFile [0x61, 0x62, 0x63] = Inr packets
     \<and> take (length [0x61, 0x62, 0x63 :: byte]) (concat (map payload packets))
         = [0x61, 0x62, 0x63]"
  by (rule splitFile_round_trip)

text \<open>
  Claim C3 as stated fails for a buffer of 200 bytes: \<open>200 mod 1024 = 200\<close>
  exceeds 128, and the payload region of the only packet has 1024 bytes, not 200.
\<close>

theorem splitFile_last_payload_counterexample:
  "map_sum id (map (\<lambda>p. length (payload p))) (splitFile (replicate 200 0)) = Inr [1024]
   \<and> (200::nat) mod 1024 = 200 \<and> (128::nat) < 200 mod 1024"
proof -
  have "[0..<(length (replicate 200 (0::byte)) + 1023) div 1024] = [0]"
    by (simp add: upt_rec)
  then have "splitFile (replicate 200 0) = Inr [data_packet (replicate 200 0) 0]"
    by (simp only: splitFile_packets list.map)
  moreover have "length (payload (data_packet (replicate 200 0) 0)) = 1024"
    by (simp add: length_payload_data_packet packSize_of_def)
  ultimately show ?thesis by simp
qed

theorem splitFile_count_and_sizes_witness:
  "\<exists>packets. splitFile (replicate 1100 7) = Inr packets
     \<and> length packets = 2
     \<and> length (payload (packets ! 0)) = 1024
     \<and> payload (packets ! 0) = replicate 1024 7
     \<and> length (payload (packets ! 1)) = 128
     \<and> payload (packets ! 1) = replicate 76 7 @ replicate 52 0x1A"
proof -
  from splitFile_count_and_sizes [of "replicate 1100 7"] obtain packets
    where s: "splitFile (replicate 1100 7) = Inr packets"
      and n: "int (length packets) = \<lceil>real (length (replicate 1100 (7::byte))) / 1024\<rceil>"
      and each: "\<And>k. k < length packets \<Longrightarrow>
          (let p = packets ! k; rest = drop (1024 * k) (replicate 1100 (7::byte))
          in if k + 1 < length packets then
               length (payload p) = 1024 \<and> payload p = take 1024 rest
             else if 128 < length (replicate 1100 (7::byte)) mod 1024 then
               length (payload p) = 1024 \<and> length rest = length (replicate 1100 (7::byte)) mod 1024
               \<and> payload p = rest @ replicate (1024 - length (replicate 1100 (7::byte)) mod 1024) 0x1A
             else if 0 < length (replicate 1100 (7::byte)) mod 1024 then
               length (payload p) = 128 \<and> length rest = length (replicate 1100 (7::byte)) mod 1024
               \<and> payload p = rest @ replicate (128 - length (replicate 1100 (7::byte)) mod 1024) 0x1A
             else
               length (payload p) = 1024 \<and> payload p = rest)"
    by blast
  have "\<lceil>real 1100 / 1024\<rceil> = 2" by (simp add: ceiling_eq_iff)
  with n have len: "length packets = 2" by simp
  from each [of 0] each [of 1] len s show ?thesis
    by (simp add: Let_def)
qed

theorem splitFile_packet_layout_witness:
  "\<exists>packets. splitFile (replicate 1100 7) = Inr packets \<and> length packets = 2
     \<and> (let p = packets ! (2 - 1); n = length (payload p) in
           length p = 3 + n + 2
         \<and> (n = 1024 \<or> n = 128)
         \<and> (marker p = STX \<longleftrightarrow> n = 1024)
         \<and> (marker p = SOH \<longleftrightarrow> n = 128)
         \<and> unat (sequence p) = 2 mod 256
         \<and> unat (complement p) = 0xFF - unat (sequence p)
         \<and> payload p = padded n (take n (drop (1024 * (2 - 1)) (replicate 1100 7)))
         \<and> trailer p =
             [ucast (drop_bit 8 (crc16xmodem (payload p) 0 n None)),
              ucast (crc16xmodem (payload p) 0 n None AND 0xff)]
         \<and> trailer p =
             [ucast (drop_bit 8 (crc16xmodem p 3 n None)), ucast (crc16xmodem p 3 n None AND 0xff)]
         \<and> crc16xmodem p 3 n None = ucast (xmodem_reference (payload p)))"
proof -
  define packets where "packets = map (data_packet (replicate 1100 7)) [0..<2]"
  have s: "splitFile (replicate 1100 7) = Inr packets"
    by (simp add: splitFile_packets packets_def)
  have l: "length packets = 2" by (simp add: packets_def)
  have "(1::nat) \<le> 2" and "2 \<le> length packets" by (simp_all add: l)
  from splitFile_packet_layout [OF s this] s l show ?thesis by blast
qed

section \<open>The transfer driver\<close>

lemma control_bytes_distinct:
  "CRC16 \<noteq> ACK" "CRC16 \<noteq> NAK" "CRC16 \<noteq> CA" "ACK \<noteq> NAK" "ACK \<noteq> CA" "NAK \<noteq> CA"
  "ACK \<noteq> CRC16" "NAK \<noteq> CRC16" "CA \<noteq> CRC16" "NAK \<noteq> ACK" "CA \<noteq> ACK" "CA \<noteq> NAK"
  by (simp_all add: CRC16_def ACK_def NAK_def CA_def)

lemma eot_pack_bytes: "eot_pack = SOH # 0 # 0xff # replicate 130 0"
proof -
  have "replicate 3 (0::byte) @ replicate 130 0 = replicate (3 + 130) 0"
    by (simp only: replicate_add)
  then have "replicate (128 + 5) (0::byte) = [0, 0, 0] @ replicate 130 0"
    by (simp add: numeral_3_eq_3)
  then show ?thesis
    by (simp add: eot_pack_def alloc_def PACKET_SIZE_128_def numeral_2_eq_2)
qed

lemma finish_finished [simp]: "finished (finish d)"
  by (simp add: finish_def Let_def)

lemma finish_when_finished: "finished d \<Longrightarrow> finish d = d"
  by (simp add: finish_def Let_def)

lemma on_byte_finished: "finished d \<Longrightarrow> on_byte ch d = d"
  by (simp add: on_byte_def)

lemma step_finished:
  assumes "finished d"
  shows "finished (step d e)" and "written (step d e) = written d" and "seq (step d e) = seq d"
    and "session (step d e) = session d" and "sending (step d e) = sending d"
    and "writtenBytes (step d e) = writtenBytes d" and "resolved (step d e) = resolved d"
  using assms by (cases e; simp add: on_byte_finished finish_when_finished)+

lemma readData_Nil [simp]: "readData d [] = d"
  by (simp add: readData_def)

lemma readData_Cons [simp]: "readData d (e # events) = readData (step d e) events"
  by (simp add: readData_def)

lemma readData_append: "readData d (es @ fs) = readData (readData d es) fs"
  by (simp add: readData_def)

lemma readData_finished:
  assumes "finished d"
  shows "finished (readData d events) \<and> written (readData d events) = written d
    \<and> seq (readData d events) = seq d \<and> session (readData d events) = session d
    \<and> sending (readData d events) = sending d
    \<and> writtenBytes (readData d events) = writtenBytes d
    \<and> resolved (readData d events) = resolved d"
  using assms
proof (induction events arbitrary: d)
  case Nil
  then show ?case by simp
next
  case (Cons e events)
  from Cons.prems have "finished (step d e)" by (rule step_finished)
  from Cons.IH [OF this] show ?case
    by (simp add: step_finished [OF Cons.prems])
qed

lemma readData_bytes_finished: "finished d \<Longrightarrow> readData d (map Byte chs) = d"
  by (induction chs) (simp_all add: on_byte_finished)

lemma transfer_started:
  assumes "makeFileHeader name (length buffer) = Inr hdr"
  shows "transfer locked name buffer callback = Inr (started locked name buffer callback hdr)"
  by (simp add: transfer_def Let_def andThen_def assms splitFile_packets started_def)

lemma transfer_empty_file:
  "\<exists>hdr. makeFileHeader name 0 = Inr hdr
     \<and> transfer locked name [] callback = Inr (started locked name [] callback hdr)"
  using transfer_started [of name "[]"] by (simp add: makeFileHeader_no_size)

lemma digit_chars:
  "char_of (48::nat) = CHR ''0''" "char_of (49::nat) = CHR ''1''" "char_of (50::nat) = CHR ''2''"
  "char_of (51::nat) = CHR ''3''" "char_of (52::nat) = CHR ''4''" "char_of (53::nat) = CHR ''5''"
  "char_of (54::nat) = CHR ''6''" "char_of (55::nat) = CHR ''7''" "char_of (56::nat) = CHR ''8''"
  "char_of (57::nat) = CHR ''9''"
  by (simp_all add: char_of_def bit_Suc_0_iff)

lemma toString_1025: "toString 1025 = ''1025''"
  by (simp add: toString_small toString_large digit_chars)

lemma control_bytes_nonzero: "CRC16 \<noteq> 0" "0 \<noteq> CRC16" "ACK \<noteq> 0" "NAK \<noteq> 0" "CA \<noteq> 0"
  by (simp_all add: CRC16_def ACK_def NAK_def CA_def)

lemma header_f_1025: "\<exists>hdr. makeFileHeader ''f'' 1025 = Inr hdr"
  by (subst makeFileHeader_ascii) (simp_all add: header_text_def toString_1025)

text \<open>
  Claim C7 as stated fails for a file of 1025 bytes: when the first data packet is
  acknowledged the cursor is 1, \<open>min (1 * 1024) 1025 = 1024\<close>, and the driver sets
  the written-byte total to 1025.
\<close>

theorem written_total_counterexample:
  "\<not> isl (transfer False ''f'' (replicate 1025 0) False)
   \<and> (let d = readData (projr (transfer False ''f'' (replicate 1025 0) False))
                [Byte CRC16, Byte ACK, Byte CRC16]
      in sending d \<and> seq d = 1 \<and> length (file_trunks d) = 3 \<and> totalBytes d = 1025
         \<and> writtenBytes (step d (Byte ACK)) = 1025
         \<and> min (seq d * 1024) (totalBytes d) = 1024)"
proof -
  obtain hdr where "makeFileHeader ''f'' (length (replicate 1025 (0::byte))) = Inr hdr"
    using header_f_1025 by auto
  then have t: "transfer False ''f'' (replicate 1025 0) False
      = Inr (started False ''f'' (replicate 1025 0) False hdr)"
    by (rule transfer_started)
  have two: "[0..<(length (replicate 1025 (0::byte)) + 1023) div 1024] = [0, 1]"
    by (simp add: upt_rec)
  show ?thesis
    unfolding t
    by (simp add: started_def two on_byte_def on_ACK_def sendPacket_def sendBuffer_def
        control_bytes_distinct control_bytes_nonzero Let_def PACKET_SIZE_1024_def)
qed

lemma on_byte_ACK: "\<not> finished d \<Longrightarrow> on_byte ACK d = (on_ACK d)\<lparr>PreChar := ACK\<rparr>"
  by (simp add: on_byte_def control_bytes_distinct)

lemma on_ACK_data:
  assumes "session d" and "sending d" and "0 < seq d" and "seq d < length (file_trunks d)"
  shows "writtenBytes (on_ACK d) =
           (if writtenBytes d < totalBytes d then min ((seq d + 1) * 1024) (totalBytes d)
            else writtenBytes d)"
    and "seq (on_ACK d) = seq d + 1"
    and "written (on_ACK d) =
           written d @ [if seq d + 1 < length (file_trunks d) then file_trunks d ! (seq d + 1)
                        else [EOT]]"
    and "progress (on_ACK d) =
           (if progressCallback d then progress d @ [(writtenBytes (on_ACK d), totalBytes d)]
            else progress d)"
    and "totalBytes (on_ACK d) = totalBytes d"
    and "sending (on_ACK d)" and "session (on_ACK d)" and "\<not> finished d \<Longrightarrow> \<not> finished (on_ACK d)"
  using assms
  by (auto simp add: on_ACK_def Let_def sendPacket_def sendBuffer_def PACKET_SIZE_1024_def min_def)

lemma finish_totals:
  "writtenBytes (finish d) = writtenBytes d" "totalBytes (finish d) = totalBytes d"
  by (simp_all add: finish_def Let_def)

lemma close_totals:
  "writtenBytes (close d) = writtenBytes d" "totalBytes (close d) = totalBytes d"
  by (simp_all add: close_def Let_def finish_totals)

lemma sendPacket_totals:
  "writtenBytes (sendPacket d) = writtenBytes d" "totalBytes (sendPacket d) = totalBytes d"
  by (simp_all add: sendPacket_def sendBuffer_def)

lemma on_ACK_bounded:
  "writtenBytes d \<le> totalBytes d \<Longrightarrow> writtenBytes (on_ACK d) \<le> totalBytes (on_ACK d)"
  by (simp add: on_ACK_def Let_def sendPacket_totals sendBuffer_def close_totals)

lemma on_byte_bounded:
  "writtenBytes d \<le> totalBytes d \<Longrightarrow> writtenBytes (on_byte ch d) \<le> totalBytes (on_byte ch d)"
  by (simp add: on_byte_def Let_def on_ACK_bounded sendPacket_totals close_totals sendBuffer_def)

lemma step_bounded:
  "writtenBytes d \<le> totalBytes d \<Longrightarrow> writtenBytes (step d e) \<le> totalBytes (step d e)"
  by (cases e) (simp_all add: on_byte_bounded finish_totals)

lemma readData_bounded:
  "writtenBytes d \<le> totalBytes d \<Longrightarrow>
   writtenBytes (readData d events) \<le> totalBytes (readData d events)"
  by (induction events arbitrary: d) (simp_all add: step_bounded)

text \<open>
  Claim C7, as amended. When an ACK is received while the session is active and
  armed (\<open>session\<close> and \<open>sending\<close> are true, the outcome not yet produced) and the
  cursor satisfies \<open>0 < seq < queue length\<close>, the driver sets the written-byte
  total to \<open>min ((seq + 1) * 1024) totalBytes\<close>, with \<open>seq\<close> the cursor before it is
  advanced, unless the total has already reached \<open>totalBytes\<close>; it advances the
  cursor by one and sends the packet at the new cursor, or the single byte EOT when
  the new cursor is the queue length. A total that does not exceed \<open>totalBytes\<close>
  never does so later.
\<close>

theorem ack_advances_cursor:
  assumes "reading d" and "\<not> finished d" and "session d" and "sending d"
    and "0 < seq d" and "seq d < length (file_trunks d)"
  shows "let d' = step d (Byte ACK) in
           writtenBytes d' =
             (if writtenBytes d < totalBytes d then min ((seq d + 1) * 1024) (totalBytes d)
              else writtenBytes d)
         \<and> seq d' = seq d + 1
         \<and> written d' =
             written d @ [if seq d + 1 < length (file_trunks d) then file_trunks d ! (seq d + 1)
                          else [EOT]]
         \<and> (writtenBytes d \<le> totalBytes d \<longrightarrow>
              (\<forall>events. writtenBytes (readData d events) \<le> totalBytes (readData d events)))"
  using assms(1,2) on_ACK_data(1-3) [OF assms(3-6)]
  by (simp add: on_byte_ACK readData_bounded)

lemma started_f_1025:
  "\<exists>hdr. transfer False ''f'' (replicate 1025 0) False
     = Inr (started False ''f'' (replicate 1025 0) False hdr)"
proof -
  obtain hdr where "makeFileHeader ''f'' (length (replicate 1025 (0::byte))) = Inr hdr"
    using header_f_1025 by auto
  then have "transfer False ''f'' (replicate 1025 0) False
      = Inr (started False ''f'' (replicate 1025 0) False hdr)"
    by (rule transfer_started)
  then show ?thesis ..
qed

lemma two_chunks: "[0..<(length (replicate 1025 (0::byte)) + 1023) div 1024] = [0, 1]"
  by (simp add: upt_rec)

theorem ack_advances_cursor_witness:
  "\<not> isl (transfer False ''f'' (replicate 1025 0) False)
   \<and> (let d = readData (projr (transfer False ''f'' (replicate 1025 0) False))
             [Byte CRC16, Byte ACK, Byte CRC16];
       d' = step d (Byte ACK)
   in reading d \<and> \<not> finished d \<and> session d \<and> sending d \<and> seq d = 1
      \<and> length (file_trunks d) = 3 \<and> totalBytes d = 1025 \<and> writtenBytes d = 0
      \<and> writtenBytes d' = 1025 \<and> seq d' = 2 \<and> written d' = written d @ [file_trunks d ! 2]
      \<and> writtenBytes (readData d [Byte ACK, Byte ACK, Byte CA])
          \<le> totalBytes (readData d [Byte ACK, Byte ACK, Byte CA]))"
proof -
  obtain hdr where t: "transfer False ''f'' (replicate 1025 0) False
      = Inr (started False ''f'' (replicate 1025 0) False hdr)"
    using started_f_1025 by auto
  define d where "d = readData (started False ''f'' (replicate 1025 0) False hdr)
      [Byte CRC16, Byte ACK, Byte CRC16]"
  have state: "reading d" "\<not> finished d" "session d" "sending d" "seq d = 1"
    "length (file_trunks d) = 3" "totalBytes d = 1025" "writtenBytes d = 0"
    unfolding d_def
    by (simp_all add: started_def two_chunks on_byte_def on_ACK_def sendPacket_def sendBuffer_def
        control_bytes_distinct control_bytes_nonzero Let_def)
  have "0 < seq d" and "seq d < length (file_trunks d)" by (simp_all add: state)
  from ack_advances_cursor [OF state(1-4) this] state
  have after: "writtenBytes (step d (Byte ACK)) = 1025" "seq (step d (Byte ACK)) = 2"
    "written (step d (Byte ACK)) = written d @ [file_trunks d ! 2]"
    and bound: "writtenBytes (readData d [Byte ACK, Byte ACK, Byte CA])
      \<le> totalBytes (readData d [Byte ACK, Byte ACK, Byte CA])"
    by (simp_all add: Let_def numeral_2_eq_2 del: readData_Cons)
  from state after bound show ?thesis
    unfolding t sum.sel d_def [symmetric] Let_def by simp
qed

text \<open>
  Claim C8 as stated fails: the first byte of \<open>eot_pack\<close> is 0x01 (SOH), not 0x04.
\<close>

theorem eot_pack_first_byte_counterexample:
  "hd eot_pack = 0x01 \<and> hd eot_pack \<noteq> EOT \<and> EOT = 0x04"
  by (simp add: eot_pack_bytes SOH_def EOT_def)

text \<open>
  Claim C8, as amended. \<open>eot_pack\<close> is a frame of 133 bytes whose first byte is
  SOH (0x01) and whose third byte is 0xFF, all others being 0. The driver writes it
  when a \<open>C\<close> arrives with the cursor at or past the queue length, and when an ACK
  arrives in an armed, active session with the cursor at or past the queue length.
\<close>

theorem eot_pack_frame:
  "length eot_pack = 133 \<and> eot_pack = SOH # 0 # 0xFF # replicate 130 0 \<and> SOH = 0x01
   \<and> (reading d \<and> \<not> finished d \<and> length (file_trunks d) \<le> seq d \<longrightarrow>
        written (step d (Byte CRC16)) = written d @ [eot_pack])
   \<and> (reading d \<and> \<not> finished d \<and> session d \<and> sending d \<and> 0 < seq d
        \<and> length (file_trunks d) \<le> seq d \<longrightarrow>
        written (step d (Byte ACK)) = written d @ [eot_pack])"
  by (auto simp add: eot_pack_bytes SOH_def on_byte_def on_ACK_def sendBuffer_def Let_def
      control_bytes_distinct)

lemma once_finish: "once d \<Longrightarrow> once (finish d)"
  by (auto simp add: once_def finish_def Let_def)

lemma once_close: "once d \<Longrightarrow> once (close d)"
  using once_finish [of "d\<lparr>session := False, sending := False\<rparr>"]
  by (auto simp add: close_def Let_def once_def)

lemma once_sendPacket: "once d \<Longrightarrow> once (sendPacket d)"
  by (simp add: once_def sendPacket_def sendBuffer_def)

lemma once_fields:
  "resolved d' = resolved d \<Longrightarrow> finished d' = finished d \<Longrightarrow> once d \<Longrightarrow> once d'"
  by (simp add: once_def)

lemma sendPacket_fields:
  "resolved (sendPacket d) = resolved d" "finished (sendPacket d) = finished d"
  by (simp_all add: sendPacket_def sendBuffer_def)

lemma once_on_ACK: "once d \<Longrightarrow> once (on_ACK d)"
proof -
  assume "once d"
  then have c: "once (if \<not> session d then close d else d)" by (simp add: once_close)
  define c where "c = (if \<not> session d then close d else d)"
  have "once (on_ACK d)" if "once c"
    using that unfolding on_ACK_def Let_def c_def [symmetric]
    by (auto simp add: once_def sendPacket_fields sendBuffer_def)
  with c show ?thesis by (simp add: c_def)
qed

lemma once_on_byte: "once d \<Longrightarrow> once (on_byte ch d)"
proof -
  assume d: "once d"
  have upd: "once (x\<lparr>PreChar := ch\<rparr>)" if "once x" for x
    using that by (simp add: once_def)
  show ?thesis
    unfolding on_byte_def Let_def
    using d once_on_ACK [OF d] once_sendPacket [OF d] once_close [OF d]
    by (auto intro!: upd simp add: once_def sendPacket_fields sendBuffer_def)
qed

lemma once_step: "once d \<Longrightarrow> once (step d e)"
proof (cases e)
  case (Byte ch)
  assume "once d"
  then show ?thesis using Byte by (simp add: once_on_byte)
next
  case ReadDone
  assume "once d"
  then show ?thesis using ReadDone by (simp add: once_def)
next
  case ReadError
  assume "once d"
  then show ?thesis using ReadError by (simp add: once_def)
next
  case CancelSettled
  assume "once d"
  then have "once (d\<lparr>cancelling := cancelling d - 1\<rparr>)" by (simp add: once_def)
  then show ?thesis using CancelSettled \<open>once d\<close> by (simp add: once_finish)
qed

lemma once_readData: "once d \<Longrightarrow> once (readData d events)"
  by (induction events arbitrary: d) (simp_all add: once_step)

lemma resolved_at_most_once: "resolved d = [] \<Longrightarrow> length (resolved (readData d events)) \<le> 1"
  using once_readData [of d events] by (auto simp add: once_def)

lemma stopped_step: "\<not> reading d \<Longrightarrow> cancelling d = 0 \<Longrightarrow> step d e = d"
  by (cases e) simp_all

lemma stopped_readData: "\<not> reading d \<Longrightarrow> cancelling d = 0 \<Longrightarrow> readData d events = d"
  by (induction events) (simp_all add: stopped_step)

lemma stream_end_resolves_nothing:
  "cancelling d = 0 \<Longrightarrow> resolved (readData d (ReadDone # events)) = resolved d"
  using stopped_readData [of "d\<lparr>reading := False\<rparr>" events] by simp

lemma close_unlocked:
  assumes "\<not> reader_locked d" and "\<not> finished d"
  shows "resolved (close d) = resolved d @
           [\<lparr>filePath = filename d, outcome_totalBytes = totalBytes d,
             outcome_writtenBytes = writtenBytes d\<rparr>]"
    and "finished (close d)" and "\<not> sending (close d)"
  using assms by (simp_all add: close_def finish_def Let_def)

lemma close_locked:
  assumes "reader_locked d"
  shows "resolved (close d) = resolved d" and "finished (close d) = finished d"
    and "cancelling (close d) = Suc (cancelling d)" and "\<not> sending (close d)"
    and "filename (close d) = filename d" and "totalBytes (close d) = totalBytes d"
    and "writtenBytes (close d) = writtenBytes d"
  using assms by (simp_all add: close_def Let_def)

lemma on_byte_CA: "\<not> finished d \<Longrightarrow> on_byte CA d = (close d)\<lparr>PreChar := CA\<rparr>"
  by (simp add: on_byte_def control_bytes_distinct)

lemma on_ACK_no_session: "\<not> session d \<Longrightarrow> on_ACK d = close d"
  by (simp add: on_ACK_def Let_def close_def finish_def)

text \<open>
  Claim C9, as amended. From a state in which the outcome has not been produced,
  no run produces it more than once. It is produced, from the values of
  \<open>filename\<close>, \<open>totalBytes\<close> and \<open>writtenBytes\<close>, when a CA arrives and when an
  ACK arrives while no session is active: at once when \<open>reader.locked\<close> is falsy,
  otherwise when the promise of \<open>reader.cancel()\<close> is fulfilled. The end of the
  inbound stream produces no outcome, and none follows it unless a
  \<open>reader.cancel()\<close> is still pending.
\<close>

theorem outcome_at_most_once:
  assumes "resolved d = []"
  shows "length (resolved (readData d events)) \<le> 1
     \<and> (\<forall>ch. ch = CA \<or> (ch = ACK \<and> \<not> session d) \<longrightarrow> reading d \<and> \<not> finished d \<longrightarrow>
          (if reader_locked d
           then resolved (step d (Byte ch)) = []
              \<and> resolved (readData d [Byte ch, CancelSettled]) =
                  [\<lparr>filePath = filename d, outcome_totalBytes = totalBytes d,
                    outcome_writtenBytes = writtenBytes d\<rparr>]
           else resolved (step d (Byte ch)) =
                  [\<lparr>filePath = filename d, outcome_totalBytes = totalBytes d,
                    outcome_writtenBytes = writtenBytes d\<rparr>]))
     \<and> resolved (step d ReadDone) = []
     \<and> (cancelling d = 0 \<longrightarrow> resolved (readData d (ReadDone # events)) = [])"
proof -
  have a: "length (resolved (readData d events)) \<le> 1"
    using assms by (rule resolved_at_most_once)
  have b: "if reader_locked d
           then resolved (step d (Byte ch)) = []
              \<and> resolved (readData d [Byte ch, CancelSettled]) =
                  [\<lparr>filePath = filename d, outcome_totalBytes = totalBytes d,
                    outcome_writtenBytes = writtenBytes d\<rparr>]
           else resolved (step d (Byte ch)) =
                  [\<lparr>filePath = filename d, outcome_totalBytes = totalBytes d,
                    outcome_writtenBytes = writtenBytes d\<rparr>]"
    if ch: "ch = CA \<or> (ch = ACK \<and> \<not> session d)" and r: "reading d" and f: "\<not> finished d" for ch
  proof -
    from ch f have closes: "on_byte ch d = (close d)\<lparr>PreChar := ch\<rparr>"
      by (auto simp add: on_byte_CA on_byte_ACK on_ACK_no_session)
    show ?thesis
    proof (cases "reader_locked d")
      case True
      with r f assms show ?thesis
        by (simp add: closes close_locked finish_def Let_def)
    next
      case False
      with r f assms show ?thesis
        by (simp add: closes close_unlocked)
    qed
  qed
  have c: "resolved (step d ReadDone) = []" using assms by simp
  have e: "resolved (readData d (ReadDone # events)) = []" if "cancelling d = 0"
    using that assms by (simp only: stream_end_resolves_nothing)
  from a b c e show ?thesis by blast
qed

text \<open>
  Claim C9 as stated fails on the end of the inbound stream: after a \<open>C\<close> and the
  end of the stream the loop of \<open>readData\<close> has been left, \<open>finish\<close> was never
  called and nothing has been passed to \<open>resolve\<close>.
\<close>

theorem stream_end_counterexample:
  "\<not> isl (transfer False ''a'' [] False)
   \<and> resolved (readData (projr (transfer False ''a'' [] False)) [Byte CRC16, ReadDone]) = []
   \<and> \<not> finished (readData (projr (transfer False ''a'' [] False)) [Byte CRC16, ReadDone])
   \<and> \<not> reading (readData (projr (transfer False ''a'' [] False)) [Byte CRC16, ReadDone])"
proof -
  obtain hdr where t: "transfer False ''a'' [] False = Inr (started False ''a'' [] False hdr)"
    using transfer_empty_file by blast
  show ?thesis
    unfolding t
    by (simp add: started_def on_byte_def sendPacket_def sendBuffer_def
        control_bytes_distinct control_bytes_nonzero Let_def)
qed

lemmas evaluate_driver =
  started_def on_byte_def on_ACK_def sendPacket_def sendBuffer_def close_def finish_def
  control_bytes_distinct control_bytes_nonzero Let_def PACKET_SIZE_1024_def

lemma header_a_3: "\<exists>hdr. makeFileHeader ''a'' 3 = Inr hdr"
  by (subst makeFileHeader_ascii)
    (simp_all add: header_text_def toString_small digit_chars)

lemma started_a_3:
  "\<exists>hdr. transfer False ''a'' [0x61, 0x62, 0x63] False
     = Inr (started False ''a'' [0x61, 0x62, 0x63] False hdr)"
proof -
  have "length [0x61, 0x62, 0x63 :: byte] = 3" by simp
  then obtain hdr where "makeFileHeader ''a'' (length [0x61, 0x62, 0x63 :: byte]) = Inr hdr"
    using header_a_3 by (auto simp only:)
  then have "transfer False ''a'' [0x61, 0x62, 0x63] False
      = Inr (started False ''a'' [0x61, 0x62, 0x63] False hdr)"
    by (rule transfer_started)
  then show ?thesis ..
qed

lemma one_chunk: "[0..<(length [0x61, 0x62, 0x63 :: byte] + 1023) div 1024] = [0]"
  by (simp add: upt_rec)

theorem outcome_at_most_once_witness:
  "\<not> isl (transfer False ''a'' [0x61, 0x62, 0x63] False)
   \<and> (let d = projr (transfer False ''a'' [0x61, 0x62, 0x63] False);
       run = [Byte CRC16, Byte ACK, Byte CRC16, Byte ACK, Byte NAK, Byte ACK, Byte CRC16, Byte ACK]
   in resolved d = [] \<and> reading d \<and> \<not> finished d \<and> \<not> reader_locked d \<and> cancelling d = 0
      \<and> length (resolved (readData d (run @ [Byte CA, ReadDone]))) \<le> 1
      \<and> resolved (readData d run) =
           [\<lparr>filePath = ''a'', outcome_totalBytes = 3, outcome_writtenBytes = 3\<rparr>]
      \<and> resolved (readData d (run @ [Byte CA, ReadDone])) =
           [\<lparr>filePath = ''a'', outcome_totalBytes = 3, outcome_writtenBytes = 3\<rparr>]
      \<and> resolved (step d (Byte CA)) =
           [\<lparr>filePath = ''a'', outcome_totalBytes = 3, outcome_writtenBytes = 0\<rparr>]
      \<and> resolved (readData d (ReadDone # run)) = [])"
proof -
  obtain hdr where t: "transfer False ''a'' [0x61, 0x62, 0x63] False
      = Inr (started False ''a'' [0x61, 0x62, 0x63] False hdr)"
    using started_a_3 by auto
  define d where "d = started False ''a'' [0x61, 0x62, 0x63] False hdr"
  define run where "run = [Byte CRC16, Byte ACK, Byte CRC16, Byte ACK, Byte NAK, Byte ACK,
    Byte CRC16, Byte ACK]"
  have none: "resolved d = []"
    and state: "reading d" "\<not> finished d" "\<not> reader_locked d" "cancelling d = 0"
    and vals: "filename d = ''a''" "totalBytes d = 3" "writtenBytes d = 0"
    by (simp_all add: d_def started_def)
  have outcome: "resolved (readData d run) =
      [\<lparr>filePath = ''a'', outcome_totalBytes = 3, outcome_writtenBytes = 3\<rparr>]"
    and fin: "finished (readData d run)"
    unfolding d_def run_def by (simp_all add: evaluate_driver one_chunk)
  from readData_finished [OF fin, of "[Byte CA, ReadDone]"]
  have later: "resolved (readData d (run @ [Byte CA, ReadDone])) = resolved (readData d run)"
    by (simp add: readData_append)
  from outcome_at_most_once [OF none, of "run @ [Byte CA, ReadDone]"]
  have once: "length (resolved (readData d (run @ [Byte CA, ReadDone]))) \<le> 1" by blast
  from outcome_at_most_once [OF none, of run] state vals
  have cancel: "resolved (step d (Byte CA)) =
      [\<lparr>filePath = ''a'', outcome_totalBytes = 3, outcome_writtenBytes = 0\<rparr>]"
    and ended: "resolved (readData d (ReadDone # run)) = []"
    by auto
  from none state outcome later once cancel ended show ?thesis
    unfolding t sum.sel d_def [symmetric] Let_def run_def [symmetric] by simp
qed

text \<open>
  Claim C10. Once \<open>finished\<close> is set, a received byte changes nothing: the state
  after it, and after any sequence of bytes, is the state before, so nothing is
  written and \<open>seq\<close>, \<open>session\<close>, \<open>sending\<close> and \<open>writtenBytes\<close> keep their
  values; this also holds for every run of bytes, stream ends and settled promises.
\<close>

theorem finished_ignores_input:
  assumes "finished d"
  shows "step d (Byte ch) = d
     \<and> readData d (map Byte chs) = d
     \<and> (let d' = readData d events
        in finished d' \<and> written d' = written d \<and> seq d' = seq d \<and> session d' = session d
           \<and> sending d' = sending d \<and> writtenBytes d' = writtenBytes d
           \<and> resolved d' = resolved d)"
  using assms readData_finished [OF assms, of events]
  by (simp add: on_byte_finished readData_bytes_finished Let_def)

theorem finished_ignores_input_witness:
  "\<not> isl (transfer False ''a'' [] False)
   \<and> (let d = readData (projr (transfer False ''a'' [] False)) [Byte CRC16, Byte CA]
   in finished d \<and> length (written d) = 1
      \<and> step d (Byte ACK) = d
      \<and> readData d (map Byte [CRC16, ACK, NAK, CA, CRC16]) = d
      \<and> written (readData d [Byte CRC16, CancelSettled, Byte NAK, ReadDone]) = written d)"
proof -
  obtain hdr where t: "transfer False ''a'' [] False = Inr (started False ''a'' [] False hdr)"
    using transfer_empty_file by blast
  define d where "d = readData (started False ''a'' [] False hdr) [Byte CRC16, Byte CA]"
  have fin: "finished d" and one: "length (written d) = 1"
    unfolding d_def by (simp_all add: evaluate_driver)
  from finished_ignores_input [OF fin, of ACK "[CRC16, ACK, NAK, CA, CRC16]"
      "[Byte CRC16, CancelSettled, Byte NAK, ReadDone]"] fin one
  show ?thesis
    unfolding t sum.sel d_def [symmetric] by (simp add: Let_def)
qed

theorem eot_pack_frame_witness:
  "\<not> isl (transfer False ''a'' [] False)
   \<and> (let d = readData (projr (transfer False ''a'' [] False)) [Byte CRC16, Byte ACK]
   in reading d \<and> \<not> finished d \<and> session d \<and> sending d \<and> seq d = 1
      \<and> length (file_trunks d) = 1
      \<and> written (step d (Byte CRC16)) = written d @ [eot_pack]
      \<and> written (step d (Byte ACK)) = written d @ [eot_pack]
      \<and> length eot_pack = 133)"
proof -
  obtain hdr where t: "transfer False ''a'' [] False = Inr (started False ''a'' [] False hdr)"
    using transfer_empty_file by blast
  define d where "d = readData (started False ''a'' [] False hdr) [Byte CRC16, Byte ACK]"
  have state: "reading d" "\<not> finished d" "session d" "sending d" "seq d = 1"
    "length (file_trunks d) = 1"
    unfolding d_def by (simp_all add: evaluate_driver)
  from eot_pack_frame [of d] state show ?thesis
    unfolding t sum.sel d_def [symmetric] by (simp add: Let_def)
qed

section \<open>The header packet and the empty file\<close>

lemma header_parts:
  assumes "makeFileHeader name n = Inr ([SOH, 0, 0xff] @ P @ crc_trailer P)"
  shows "\<exists>packet. makeFileHeader name n = Inr packet \<and> length packet = length P + 5
      \<and> marker packet = SOH \<and> sequence packet = 0 \<and> complement packet = 0xFF
      \<and> payload packet = P \<and> trailer packet = crc_trailer P"
  using assms packet_parts [OF length_crc_trailer, of SOH 0 "0xff" P P] by simp

lemma of_char_byte_eq_0: "(of_char c :: byte) = 0 \<longleftrightarrow> c = CHR 0x00"
proof
  assume "(of_char c :: byte) = 0"
  then have "unat (of_char c :: byte) = 0" by simp
  then have "(of_char c :: nat) = of_char (CHR 0x00)" by (simp add: unat_of_char)
  then show "c = CHR 0x00" by (simp only: of_char_eq_iff)
next
  assume "c = CHR 0x00"
  then show "(of_char c :: byte) = 0" by simp
qed

lemma char_of_byte: "char_of (unat (of_char c :: byte)) = c"
  by (simp add: unat_of_char)

lemma digit_not_space: "c \<in> set (toString n) \<Longrightarrow> (of_char c :: byte) \<noteq> 0x20"
proof
  assume c: "c \<in> set (toString n)" and "(of_char c :: byte) = 0x20"
  then have "unat (of_char c :: byte) = 32" by simp
  then have "(of_char c :: nat) = 32" by (simp add: unat_of_char)
  with toString_digits [OF c] show False by simp
qed

lemma parse_header_text:
  assumes "CHR 0x00 \<notin> set name"
  shows "parse_filename (header_text name n @ zs) = name"
    and "parse_filesize (header_text name n @ zs) = n"
proof -
  have nz: "\<forall>b\<in>set (map of_char name :: byte list). b \<noteq> 0"
    using assms by (auto simp add: of_char_byte_eq_0)
  have shape: "header_text name n @ zs
      = map of_char name @ 0 # (map of_char (toString n) @ 0x20 # zs)"
    by (simp add: header_text_def)
  have "takeWhile (\<lambda>b. b \<noteq> 0) (header_text name n @ zs) = (map of_char name :: byte list)"
    unfolding shape using nz by (simp add: takeWhile_tail)
  then show "parse_filename (header_text name n @ zs) = name"
    by (simp add: parse_filename_def comp_def char_of_byte)
  have "dropWhile (\<lambda>b. b \<noteq> 0) (header_text name n @ zs)
      = 0 # (map of_char (toString n) @ 0x20 # zs)"
    unfolding shape using nz by (simp add: dropWhile_append3)
  moreover have "takeWhile (\<lambda>b. b \<noteq> 0x20) (map of_char (toString n) @ 0x20 # zs)
      = (map of_char (toString n) :: byte list)"
    by (simp add: takeWhile_tail digit_not_space)
  ultimately show "parse_filesize (header_text name n @ zs) = n"
    by (simp add: parse_filesize_def decimal_value_toString)
qed

text \<open>
  Claim C5, as amended. For a non-empty file name of ASCII characters and a
  positive file size (a natural number below \<open>10 ^ 21\<close>, as every buffer length
  is) such that the file name, a NUL, the decimal text of the size and a space fit
  into 128 bytes, \<open>makeFileHeader\<close> returns a packet of 133 bytes
  with marker SOH, sequence byte 0, complement byte 0xFF and a payload of 128
  bytes made of exactly these four parts and zero bytes, followed by the CRC16 (seed
  0) of the 128 bytes, high byte first; when the file name has no NUL character,
  reading the payload back gives the file name and the file size.
\<close>

theorem makeFileHeader_layout:
  assumes "name \<noteq> []" and "0 < filesize" and "filesize < 10 ^ 21"
    and "\<forall>c\<in>set name. (of_char c :: nat) < 0x80"
    and "length name + length (toString filesize) + 2 \<le> 128"
  shows "\<exists>packet. makeFileHeader name filesize = Inr packet
     \<and> length packet = 133
     \<and> marker packet = SOH \<and> sequence packet = 0 \<and> complement packet = 0xFF
     \<and> length (payload packet) = 128
     \<and> payload packet =
           map of_char name @ [0] @ map of_char (toString filesize) @ [0x20]
           @ replicate (128 - (length name + length (toString filesize) + 2)) 0
     \<and> decimal_value (map of_char (toString filesize)) = filesize
     \<and> trailer packet =
           [ucast (drop_bit 8 (crc16xmodem (payload packet) 0 128 (Some 0))),
            ucast (crc16xmodem (payload packet) 0 128 (Some 0) AND 0xff)]
     \<and> (CHR 0x00 \<notin> set name \<longrightarrow>
           parse_filename (payload packet) = name
           \<and> parse_filesize (payload packet) = filesize)"
proof -
  define l where "l = length (header_text name filesize)"
  define P where "P = header_text name filesize @ replicate (128 - l) 0"
  have l: "l = length name + length (toString filesize) + 2"
    by (simp add: l_def length_header_text)
  with assms(5) have le: "l \<le> 128" by simp
  then have lenP: "length P = 128" by (simp add: P_def l_def)
  have "replicate (130 - l) (0::byte) = replicate (128 - l) 0 @ replicate 2 0"
    using le by (simp add: replicate_add [symmetric] del: replicate_Suc)
  then have "take 128 (header_text name filesize @ replicate (130 - l) 0) = P"
    using le by (simp add: P_def l_def)
  moreover have "makeFileHeader name filesize =
      Inr ([SOH, 0, 0xff]
           @ take 128 (header_text name filesize @ replicate (130 - l) 0)
           @ crc_trailer (take 128 (header_text name filesize @ replicate (130 - l) 0)))"
    unfolding l_def
    by (rule makeFileHeader_ascii) (use assms le in \<open>simp_all add: l_def\<close>)
  ultimately have "makeFileHeader name filesize = Inr ([SOH, 0, 0xff] @ P @ crc_trailer P)"
    by simp
  from header_parts [OF this] obtain packet
    where p: "makeFileHeader name filesize = Inr packet" "length packet = length P + 5"
      "marker packet = SOH" "sequence packet = 0" "complement packet = 0xFF"
      "payload packet = P" "trailer packet = crc_trailer P"
    by blast
  have crc: "crc_trailer P =
      [ucast (drop_bit 8 (crc16xmodem P 0 128 (Some 0))),
       ucast (crc16xmodem P 0 128 (Some 0) AND 0xff)]"
    using crc_trailer_crc16xmodem [of P] by (simp add: lenP crc16xmodem_seed_0)
  have body: "P = map of_char name @ [0] @ map of_char (toString filesize) @ [0x20]
           @ replicate (128 - (length name + length (toString filesize) + 2)) 0"
    by (simp add: P_def header_text_def l)
  have parse: "parse_filename P = name \<and> parse_filesize P = filesize"
    if "CHR 0x00 \<notin> set name"
    unfolding P_def using parse_header_text [OF that] by simp
  from p crc parse lenP body show ?thesis
    by (auto simp add: decimal_value_toString)
qed

theorem makeFileHeader_layout_witness:
  "\<exists>packet. makeFileHeader ''a.bin'' 300 = Inr packet
     \<and> length packet = 133
     \<and> marker packet = SOH \<and> sequence packet = 0 \<and> complement packet = 0xFF
     \<and> payload packet = map of_char ''a.bin'' @ [0] @ map of_char ''300'' @ [0x20] @ replicate 118 0
     \<and> parse_filename (payload packet) = ''a.bin''
     \<and> parse_filesize (payload packet) = 300"
proof -
  have digits: "toString 300 = ''300''"
    by (simp add: toString_small toString_large digit_chars)
  have "''a.bin'' \<noteq> []" and "0 < (300::nat)" and "(300::nat) < 10 ^ 21"
    and "\<forall>c\<in>set ''a.bin''. (of_char c :: nat) < 0x80"
    and "length ''a.bin'' + length (toString 300) + 2 \<le> 128"
    by (simp_all add: digits)
  from makeFileHeader_layout [OF this] show ?thesis
    by (auto simp add: digits)
qed

text \<open>
  Claim C5 as stated fails for a file name of 127 characters: the name and the NUL
  fill the payload, the text of the size is written past it, where the CRC then
  overwrites it, and no size can be read back.
\<close>

theorem long_filename_counterexample:
  "\<not> isl (makeFileHeader (replicate 127 CHR ''a'') 7)
   \<and> payload (projr (makeFileHeader (replicate 127 CHR ''a'') 7)) = replicate 127 0x61 @ [0]
   \<and> parse_filesize (payload (projr (makeFileHeader (replicate 127 CHR ''a'') 7))) \<noteq> 7"
proof -
  have digits: "toString 7 = ''7''"
    by (simp add: toString_small digit_chars)
  have shape: "header_text (replicate 127 CHR ''a'') 7 = replicate 127 0x61 @ [0, 0x37, 0x20]"
    by (simp add: header_text_def digits)
  have "makeFileHeader (replicate 127 CHR ''a'') 7 =
      Inr ([SOH, 0, 0xff]
           @ take 128 (header_text (replicate 127 CHR ''a'') 7
               @ replicate (130 - length (header_text (replicate 127 CHR ''a'') 7)) 0)
           @ crc_trailer (take 128 (header_text (replicate 127 CHR ''a'') 7
               @ replicate (130 - length (header_text (replicate 127 CHR ''a'') 7)) 0)))"
    by (rule makeFileHeader_ascii) (simp_all add: shape)
  also have "take 128 (header_text (replicate 127 CHR ''a'') 7
               @ replicate (130 - length (header_text (replicate 127 CHR ''a'') 7)) 0)
      = replicate 127 0x61 @ [0]"
    by (simp add: shape)
  finally have "makeFileHeader (replicate 127 CHR ''a'') 7
      = Inr ([SOH, 0, 0xff] @ (replicate 127 0x61 @ [0]) @ crc_trailer (replicate 127 0x61 @ [0]))" .
  from header_parts [OF this] have
    "\<not> isl (makeFileHeader (replicate 127 CHR ''a'') 7)"
    "payload (projr (makeFileHeader (replicate 127 CHR ''a'') 7)) = replicate 127 0x61 @ [0]"
    by auto
  moreover have "parse_filesize (replicate 127 0x61 @ [0]) = 0"
    by (simp add: parse_filesize_def decimal_value_def dropWhile_append3)
  ultimately show ?thesis by simp
qed

lemma splitFile_empty: "splitFile [] = Inr []"
  by (simp add: splitFile_packets)

text \<open>
  A file name with a character above 0x7F is written as UTF-8, two bytes for the
  character, while the offset of the size text advances by \<open>filename.length + 1\<close>:
  the size text then follows the name at once, with no NUL between them.
\<close>

lemma non_ascii_filename_loses_separator:
  "\<not> isl (makeFileHeader [CHR 0xE9] 5)
   \<and> payload (projr (makeFileHeader [CHR 0xE9] 5)) = [0xC3, 0xA9, 0x35, 0x20] @ replicate 124 0"
proof -
  define H :: "byte list" where "H = [SOH, 0, 0xff]"
  have H3: "length H = 3" by (simp add: H_def)
  have digits: "toString 5 = ''5''"
    by (simp add: toString_small digit_chars)
  have first: "buf_write (H @ replicate 130 0) [CHR 0xE9] 3
      = Inr ((H @ [0xC3, 0xA9]) @ replicate 128 0)"
    using buf_write_zeros [of 0 130 "[0xC3, 0xA9]" "[CHR 0xE9]" H] by (simp add: H3)
  have second: "buf_write ((H @ [0xC3, 0xA9]) @ replicate 128 0) ''5 '' (3 + length [CHR 0xE9] + 1)
      = Inr (H @ ([0xC3, 0xA9, 0x35, 0x20] @ replicate 126 0))"
    using buf_write_zeros [of 0 128 "[0x35, 0x20]" "''5 ''" "H @ [0xC3, 0xA9]"] by (simp add: H3)
  have seal: "writeUInt16BE (H @ ([0xC3, 0xA9, 0x35, 0x20] @ replicate 126 0))
        (crc16xmodem (H @ ([0xC3, 0xA9, 0x35, 0x20] @ replicate 126 0)) 3 128 None)
        (length (H @ ([0xC3, 0xA9, 0x35, 0x20] @ replicate 126 0)) - 2)
      = Inr (H @ take 128 ([0xC3, 0xA9, 0x35, 0x20] @ replicate 126 0)
             @ crc_trailer (take 128 ([0xC3, 0xA9, 0x35, 0x20] @ replicate 126 0)))"
    by (rule seal_header) (simp_all add: H3)
  have "makeFileHeader [CHR 0xE9] 5
      = Inr (H @ take 128 ([0xC3, 0xA9, 0x35, 0x20] @ replicate 126 0)
             @ crc_trailer (take 128 ([0xC3, 0xA9, 0x35, 0x20] @ replicate 126 0)))"
    unfolding makeFileHeader_def Let_def header_alloc H_def [symmetric]
    using first second seal by (simp add: andThen_def digits)
  also have "take 128 ([0xC3, 0xA9, 0x35, 0x20] @ replicate 126 (0::byte))
      = [0xC3, 0xA9, 0x35, 0x20] @ replicate 124 0"
    by simp
  finally have "makeFileHeader [CHR 0xE9] 5
      = Inr ([SOH, 0, 0xff] @ ([0xC3, 0xA9, 0x35, 0x20] @ replicate 124 0)
             @ crc_trailer ([0xC3, 0xA9, 0x35, 0x20] @ replicate 124 0))"
    by (simp only: H_def)
  from header_parts [OF this] show ?thesis by auto
qed

text \<open>
  Claim C6, as amended. For a buffer of 0 bytes \<open>transfer\<close> builds the header
  packet and no data packet, so the queue holds the header alone. The payload of
  the header is the file name followed by zero bytes only: \<open>makeFileHeader\<close> writes
  no size text for the size 0. Once the header is acknowledged the cursor is the
  queue length: the next \<open>C\<close> or ACK is answered with \<open>eot_pack\<close> and a NAK with the
  single byte EOT.
\<close>

theorem empty_file_transfer:
  "\<exists>hdr d. makeFileHeader name 0 = Inr hdr \<and> splitFile [] = Inr []
     \<and> transfer locked name [] callback = Inr d
     \<and> file_trunks d = [hdr] \<and> totalBytes d = 0
     \<and> length hdr = 133 \<and> marker hdr = SOH \<and> sequence hdr = 0 \<and> complement hdr = 0xFF
     \<and> payload hdr =
           take 128 (utf8ToBytes name 130 @ replicate (130 - length (utf8ToBytes name 130)) 0)
     \<and> ((\<forall>c\<in>set name. (of_char c :: nat) < 0x80) \<and> length name \<le> 128 \<longrightarrow>
           payload hdr = map of_char name @ replicate (128 - length name) 0)
     \<and> trailer hdr = crc_trailer (payload hdr)
     \<and> (let d2 = readData d [Byte CRC16, Byte ACK]
        in written d2 = [hdr] \<and> seq d2 = 1 \<and> length (file_trunks d2) = 1
           \<and> written (step d2 (Byte CRC16)) = [hdr, eot_pack]
           \<and> written (step d2 (Byte ACK)) = [hdr, eot_pack]
           \<and> written (step d2 (Byte NAK)) = [hdr, [EOT]])"
proof -
  define Q where "Q = utf8ToBytes name 130 @ replicate (130 - length (utf8ToBytes name 130)) 0"
  define P where "P = take 128 Q"
  have lenP: "length P = 128"
    using length_utf8ToBytes [of name 130] by (simp add: P_def Q_def)
  have "makeFileHeader name 0 = Inr ([SOH, 0, 0xff] @ P @ crc_trailer P)"
    unfolding P_def Q_def by (rule makeFileHeader_no_size)
  from header_parts [OF this] obtain hdr
    where h: "makeFileHeader name 0 = Inr hdr" "length hdr = length P + 5"
      "marker hdr = SOH" "sequence hdr = 0" "complement hdr = 0xFF"
      "payload hdr = P" "trailer hdr = crc_trailer P"
    by blast
  define d where "d = started locked name [] callback hdr"
  have t: "transfer locked name [] callback = Inr d"
    unfolding d_def using h(1) by (intro transfer_started) simp
  have ascii: "P = map of_char name @ replicate (128 - length name) 0"
    if "\<forall>c\<in>set name. (of_char c :: nat) < 0x80" and "length name \<le> 128"
  proof -
    from that have "utf8ToBytes name 130 = map of_char name" by (simp add: utf8_ascii)
    moreover have "replicate (130 - length name) (0::byte)
        = replicate (128 - length name) 0 @ replicate 2 0"
      using that(2) by (simp add: replicate_add [symmetric] del: replicate_Suc)
    ultimately show ?thesis using that(2) by (simp add: P_def Q_def)
  qed
  have run: "let d2 = readData d [Byte CRC16, Byte ACK]
        in written d2 = [hdr] \<and> seq d2 = 1 \<and> length (file_trunks d2) = 1
           \<and> written (step d2 (Byte CRC16)) = [hdr, eot_pack]
           \<and> written (step d2 (Byte ACK)) = [hdr, eot_pack]
           \<and> written (step d2 (Byte NAK)) = [hdr, [EOT]]"
    unfolding d_def by (simp add: evaluate_driver)
  have q: "file_trunks d = [hdr]" "totalBytes d = 0"
    by (simp_all add: d_def started_def)
  from h t ascii run q lenP splitFile_empty show ?thesis
    unfolding P_def Q_def by (intro exI [of _ hdr] exI [of _ d]) simp
qed

text \<open>
  Claim C6 as stated fails for the file name \<open>a\<close>: the payload of the header is
  \<open>a\<close> followed by 127 zero bytes, not \<open>a\<close>, NUL, \<open>0\<close>, space and zero bytes.
\<close>

theorem empty_file_header_counterexample:
  "\<not> isl (transfer False ''a'' [] False)
   \<and> length (file_trunks (projr (transfer False ''a'' [] False))) = 1
   \<and> payload (hd (file_trunks (projr (transfer False ''a'' [] False)))) = 0x61 # replicate 127 0
   \<and> payload (hd (file_trunks (projr (transfer False ''a'' [] False))))
       \<noteq> [0x61, 0, 0x30, 0x20] @ replicate 124 0"
proof -
  define P :: "byte list"
    where "P = take 128 (utf8ToBytes ''a'' 130 @ replicate (130 - length (utf8ToBytes ''a'' 130)) 0)"
  have P: "P = 0x61 # replicate 127 0"
    by (simp add: P_def)
  have "makeFileHeader ''a'' 0 = Inr ([SOH, 0, 0xff] @ P @ crc_trailer P)"
    unfolding P_def by (rule makeFileHeader_no_size)
  from header_parts [OF this] obtain hdr
    where h: "makeFileHeader ''a'' (length ([] :: byte list)) = Inr hdr" and p: "payload hdr = P"
    by auto
  from h have t: "transfer False ''a'' [] False = Inr (started False ''a'' [] False hdr)"
    by (rule transfer_started)
  have "(0x61 # replicate 127 (0::byte)) ! 2 = 0"
    by (simp add: numeral_2_eq_2)
  moreover have "([0x61, 0, 0x30, 0x20] @ replicate 124 (0::byte)) ! 2 = 0x30"
    by (simp add: numeral_2_eq_2)
  ultimately have "0x61 # replicate 127 (0::byte) \<noteq> [0x61, 0, 0x30, 0x20] @ replicate 124 0"
    by (auto dest: arg_cong [where f = "\<lambda>xs. xs ! 2"])
  then show ?thesis
    unfolding t by (simp add: started_def p P)
qed

theorem empty_file_transfer_witness:
  "\<exists>hdr d. makeFileHeader ''a'' 0 = Inr hdr
     \<and> transfer False ''a'' [] False = Inr d
     \<and> file_trunks d = [hdr]
     \<and> payload hdr = map of_char ''a'' @ replicate (128 - length ''a'') 0
     \<and> written (step (readData d [Byte CRC16, Byte ACK]) (Byte CRC16)) = [hdr, eot_pack]"
proof -
  have "\<forall>c\<in>set ''a''. (of_char c :: nat) < 0x80" and "length ''a'' \<le> 128" by simp_all
  with empty_file_transfer [of "''a''" False False, unfolded Let_def] obtain hdr d
    where "makeFileHeader ''a'' 0 = Inr hdr" and "transfer False ''a'' [] False = Inr d"
      and "file_trunks d = [hdr]"
      and "payload hdr = map of_char ''a'' @ replicate (128 - length ''a'') 0"
      and "written (step (readData d [Byte CRC16, Byte ACK]) (Byte CRC16)) = [hdr, eot_pack]"
    by blast
  then show ?thesis by blast
qed


end
